theory Spec2Isabelle
  imports Main
begin

section \<open>Strings and the string primitives the code relies on\<close>

text \<open>
  A JavaScript string is a sequence of code units. The model uses \<^typ>\<open>string\<close>
  (a list of 8-bit characters), that is, strings whose code units lie below 256.
  The characters that the two CSV scanners single out are named here.
\<close>

abbreviation DQ :: char where "DQ \<equiv> CHR 0x22"
abbreviation COMMA :: char where "COMMA \<equiv> CHR 0x2C"
abbreviation CR :: char where "CR \<equiv> CHR 0x0D"
abbreviation LF :: char where "LF \<equiv> CHR 0x0A"
abbreviation SPACE :: char where "SPACE \<equiv> CHR 0x20"

text \<open>
  \<open>String.prototype.trim\<close> removes white space and line terminators from both ends.
  Below 256 these are TAB, LF, VT, FF, CR, SPACE and the no-break space.
\<close>

definition is_ws :: "char \<Rightarrow> bool" where
  "is_ws c \<longleftrightarrow> c \<in> {CHR 0x09, LF, CHR 0x0B, CHR 0x0C, CR, SPACE, CHR 0xA0}"

definition trim :: "string \<Rightarrow> string" where
  "trim s = rev (dropWhile is_ws (rev (dropWhile is_ws s)))"

text \<open>\<open>s.startsWith('"')\<close> and \<open>s.endsWith('"')\<close>.\<close>

definition startsWithDQ :: "string \<Rightarrow> bool" where
  "startsWithDQ s \<longleftrightarrow> s \<noteq> [] \<and> hd s = DQ"

definition endsWithDQ :: "string \<Rightarrow> bool" where
  "endsWithDQ s \<longleftrightarrow> s \<noteq> [] \<and> last s = DQ"

text \<open>\<open>s.slice(1, -1)\<close>: drops the first and the last code unit (empty for length \<open>\<le> 2\<close>).\<close>

definition slice_1_m1 :: "string \<Rightarrow> string" where
  "slice_1_m1 s = butlast (tl s)"

text \<open>\<open>s.replace(/""/g, '"')\<close>: non-overlapping matches, left to right.\<close>

fun replace_dqdq :: "string \<Rightarrow> string" where
  "replace_dqdq (c # d # rest) =
     (if c = DQ \<and> d = DQ then DQ # replace_dqdq rest else c # replace_dqdq (d # rest))"
| "replace_dqdq [c] = [c]"
| "replace_dqdq [] = []"

text \<open>\<open>s.replace(/\r\n/g, '\n')\<close>.\<close>

fun replace_crlf :: "string \<Rightarrow> string" where
  "replace_crlf (c # d # rest) =
     (if c = CR \<and> d = LF then LF # replace_crlf rest else c # replace_crlf (d # rest))"
| "replace_crlf [c] = [c]"
| "replace_crlf [] = []"

text \<open>\<open>s.replace(/\r/g, '\n')\<close>.\<close>

definition replace_cr :: "string \<Rightarrow> string" where
  "replace_cr s = map (\<lambda>c. if c = CR then LF else c) s"

text \<open>\<open>s.replace(/\n+/g, ' ')\<close>: every maximal run of line feeds becomes one space.\<close>

function replace_lf_run :: "string \<Rightarrow> string" where
  "replace_lf_run [] = []"
| "replace_lf_run (c # rest) =
     (if c = LF then SPACE # replace_lf_run (dropWhile (\<lambda>d. d = LF) rest)
      else c # replace_lf_run rest)"
  by pat_completeness auto
termination
  by (relation "measure length") (auto simp: length_dropWhile_le less_Suc_eq_le)

text \<open>\<open>s.split('\n')\<close>: always at least one piece; the pieces contain no line feed.\<close>

fun split_lf :: "string \<Rightarrow> string list" where
  "split_lf [] = [[]]"
| "split_lf (c # rest) =
     (if c = LF then [] # split_lf rest
      else (case split_lf rest of
              l # ls \<Rightarrow> (c # l) # ls
            | [] \<Rightarrow> [[c]]))"

text \<open>Number of double-quote characters of a string.\<close>

definition quoteCount :: "string \<Rightarrow> nat" where
  "quoteCount s = length (filter (\<lambda>c. c = DQ) s)"

section \<open>The cell scanner (\<open>parseCSVLine\<close> of both modules)\<close>

text \<open>
  The \<open>while\<close> loop of \<open>parseCSVLine\<close> is the same text in \<open>speakersData.ts\<close> and in
  \<open>soldOutData.ts\<close>. \<open>scan\<close> is that loop: its arguments are the loop variables
  \<open>result\<close>, \<open>current\<close>, \<open>inQuotes\<close> and the part of \<open>line\<close> from index \<open>i\<close> on; it
  returns the variables as the loop leaves them (at the end of the line or at the
  \<open>break\<close> on a line feed outside quotes).
\<close>

fun scan :: "string list \<Rightarrow> string \<Rightarrow> bool \<Rightarrow> string \<Rightarrow> string list \<times> string \<times> bool" where
  "scan result current inQuotes [] = (result, current, inQuotes)"
| "scan result current inQuotes (c # rest) =
     (if c = DQ then
        (case rest of
           d # rest' \<Rightarrow>
             if inQuotes \<and> d = DQ then scan result (current @ [DQ]) inQuotes rest'
             else scan result current (\<not> inQuotes) rest
         | [] \<Rightarrow> scan result current (\<not> inQuotes) rest)
      else if c = COMMA \<and> \<not> inQuotes then scan (result @ [trim current]) [] inQuotes rest
      else if c = CR \<and> \<not> inQuotes then scan result current inQuotes rest
      else if c = LF \<and> \<not> inQuotes then (result, current, inQuotes)
      else scan result (current @ [c]) inQuotes rest)"

subsection \<open>Speakers module\<close>

text \<open>The clean-up that \<open>parseCSVLine\<close> of \<open>speakersData.ts\<close> maps over the scanned fields.\<close>

definition clean_field :: "string \<Rightarrow> string" where
  "clean_field field0 =
     (let field1 = trim field0;
          field2 = (if startsWithDQ field1 \<and> endsWithDQ field1
                    then replace_dqdq (slice_1_m1 field1) else field1)
      in trim (replace_lf_run (replace_cr (replace_crlf field2))))"

definition parseCSVLine :: "string \<Rightarrow> string list" where
  "parseCSVLine line =
     (case scan [] [] False line of
        (result, current, inQuotes) \<Rightarrow> map clean_field (result @ [trim current]))"

text \<open>
  The \<open>for\<close> loop of \<open>parseCSVData\<close>: physical lines are appended to \<open>currentLine\<close>
  until the buffer holds an even number of quotes; then the buffer is pushed.
\<close>

fun join_lines :: "string list \<Rightarrow> string \<Rightarrow> string list \<Rightarrow> string list \<times> string" where
  "join_lines lines currentLine [] = (lines, currentLine)"
| "join_lines lines currentLine (line # rawLines) =
     (let currentLine' = currentLine @ (if currentLine \<noteq> [] then [LF] else []) @ line
      in if even (quoteCount currentLine')
         then join_lines (lines @ [currentLine']) [] rawLines
         else join_lines lines currentLine' rawLines)"

definition parseCSVData :: "string \<Rightarrow> string list list" where
  "parseCSVData csvText =
     (case join_lines [] [] (split_lf csvText) of
        (lines, currentLine) \<Rightarrow>
          map parseCSVLine (if trim currentLine \<noteq> [] then lines @ [currentLine] else lines))"

subsection \<open>Sold-out module\<close>

text \<open>\<open>parseCSVLine\<close> of \<open>soldOutData.ts\<close>: the last field is pushed only when non-empty.\<close>

definition soldOut_parseCSVLine :: "string \<Rightarrow> string list" where
  "soldOut_parseCSVLine line =
     (case scan [] [] False line of
        (result, current, inQuotes) \<Rightarrow>
          if current \<noteq> [] then result @ [trim current] else result)"

text \<open>\<open>array.findIndex(p)\<close>, with \<open>None\<close> for \<open>-1\<close>.\<close>

fun findIndex :: "('a \<Rightarrow> bool) \<Rightarrow> 'a list \<Rightarrow> nat option" where
  "findIndex p [] = None"
| "findIndex p (x # xs) = (if p x then Some 0 else map_option Suc (findIndex p xs))"

text \<open>
  \<open>toLowerCase\<close> and \<open>toUpperCase\<close>, modelled on the ASCII letters; every other code unit
  is left as it is. The code only compares their results with the ASCII words \<open>sold out\<close>
  and \<open>TRUE\<close>, and JavaScript maps no other code unit below 256 to a letter of the word
  compared, so the comparisons have the outcome they have in the code.
\<close>

definition lower_char :: "char \<Rightarrow> char" where
  "lower_char c = (let n = (of_char c :: nat) in if 65 \<le> n \<and> n \<le> 90 then char_of (n + 32) else c)"

definition upper_char :: "char \<Rightarrow> char" where
  "upper_char c = (let n = (of_char c :: nat) in if 97 \<le> n \<and> n \<le> 122 then char_of (n - 32) else c)"

definition toLowerCase :: "string \<Rightarrow> string" where
  "toLowerCase s = map lower_char s"

definition toUpperCase :: "string \<Rightarrow> string" where
  "toUpperCase s = map upper_char s"

text \<open>What a \<open>fetch\<close> call can do: reject, or resolve to a response with its \<open>ok\<close> flag
  and the outcome of \<open>response.text()\<close>.\<close>

datatype exn = ReferenceError | StorageError | SyntaxError | NetworkError | AbortError | HttpError

datatype fetch_outcome = Rejects exn | Responds bool "exn + string"

record soldOutStatus =
  isSoldOut :: bool

definition fetchSoldOutStatus :: "fetch_outcome \<Rightarrow> soldOutStatus" where
  "fetchSoldOutStatus outcome =
     (case outcome of
        Rejects e \<Rightarrow> \<lparr>isSoldOut = False\<rparr>
      | Responds ok body \<Rightarrow>
          if \<not> ok then \<lparr>isSoldOut = False\<rparr>
          else (case body of
                  Inl e \<Rightarrow> \<lparr>isSoldOut = False\<rparr>
                | Inr csvText \<Rightarrow>
                    (let lines = filter (\<lambda>line. trim line \<noteq> []) (split_lf csvText)
                     in if length lines < 2 then \<lparr>isSoldOut = False\<rparr>
                        else (let headers = soldOut_parseCSVLine (lines ! 0)
                              in case findIndex (\<lambda>header. trim (toLowerCase header) = ''sold out'') headers of
                                   None \<Rightarrow> \<lparr>isSoldOut = False\<rparr>
                                 | Some soldOutColumnIndex \<Rightarrow>
                                     (let dataRow = soldOut_parseCSVLine (lines ! 1);
                                          soldOutValue =
                                            (if soldOutColumnIndex < length dataRow
                                             then Some (toUpperCase (trim (dataRow ! soldOutColumnIndex)))
                                             else None)
                                      in \<lparr>isSoldOut = (soldOutValue = Some ''TRUE'')\<rparr>)))))"

section \<open>Speakers: records, image links, the row mapper\<close>

record speaker =
  name :: string
  title :: string
  company :: string
  image_url :: string
  linkedin :: "string option"

definition fallbackSpeakers :: "speaker list" where
  "fallbackSpeakers =
   [\<lparr>name = ''Seeram Sambasiva Rao IAS'', title = ''Special Secretary (E & ITD) / Chairman,'',
     company = ''Kerala State IT Mission'', image_url = ''/speakers/speaker_1.jpg'', linkedin = None\<rparr>,
    \<lparr>name = ''Dr.Jayasankar Prasad C'', title = ''Director,'',
     company = ''CMD'', image_url = ''/speakers/speaker_15.jpg'',
     linkedin = Some ''https://www.linkedin.com/in/jayasankar-prasad-c-b5459bb''\<rparr>,
    \<lparr>name = ''Anoop Ambika'', title = ''CEO,'',
     company = ''Kerala Start-up Mission'', image_url = ''/speakers/speaker_2.jpg'',
     linkedin = Some ''https://www.linkedin.com/in/anoopambika''\<rparr>,
    \<lparr>name = ''Sreekumar V'', title = ''Secretary, GTech & Centre Head,'',
     company = ''Tata Elxsi'', image_url = ''/speakers/speaker_3.jpg'',
     linkedin = Some ''https://www.linkedin.com/in/sreekumarv''\<rparr>,
    \<lparr>name = ''Col. Sanjeev Nair (Retd.)'', title = ''CEO,'',
     company = ''Technopark'', image_url = ''/speakers/speaker_4.jpg'',
     linkedin = Some ''https://www.linkedin.com/in/sanjeevnair13''\<rparr>,
    \<lparr>name = ''Deepu S Nath'', title = ''Managing Director,'',
     company = ''Faya'', image_url = ''/speakers/speaker_5.jpg'',
     linkedin = Some ''https://www.linkedin.com/in/deepusnath''\<rparr>,
    \<lparr>name = ''Raj Gopal R'', title = ''Deputy Vice President & Regional Head,'',
     company = ''Federal Bank'', image_url = ''/speakers/speaker_16.jpg'', linkedin = None\<rparr>,
    \<lparr>name = ''Nisha Gopinath'', title = ''Vice President and Head of HR,'',
     company = ''IBM India and South Asia'', image_url = ''/speakers/speaker_6.jpg'',
     linkedin = Some ''https://www.linkedin.com/in/nisha-gopinath-4087651''\<rparr>,
    \<lparr>name = ''Charles Godwin'', title = ''HR Leader,'',
     company = ''Zoho Corporation'', image_url = ''/speakers/speaker_7.jpg'',
     linkedin = Some ''https://www.linkedin.com/in/charlesgodwin''\<rparr>,
    \<lparr>name = ''Magical Rafi'', title = ''Founder & Chief Mentor,'',
     company = ''Magic of Change'', image_url = ''/speakers/speaker_8.jpg'',
     linkedin = Some ''https://www.linkedin.com/in/mohammedrafinlptrainer''\<rparr>,
    \<lparr>name = ''Saurabh Singh'', title = ''Consulting and Capability,'',
     company = ''SHRM India'', image_url = ''/speakers/speaker_9.jpg'',
     linkedin = Some ''https://www.linkedin.com/in/learnsingh''\<rparr>,
    \<lparr>name = ''Karthika Nair S'', title = ''Associate Director'',
     company = [], image_url = ''/speakers/speaker_13.jpg'', linkedin = None\<rparr>,
    \<lparr>name = ''Jayan Nair'', title = ''Chief People Officer,'',
     company = ''IBS Software'', image_url = ''/speakers/speaker_10.jpg'',
     linkedin = Some ''https://www.linkedin.com/in/jayan-nair-0b11874''\<rparr>,
    \<lparr>name = ''Manoj Elanjickal'', title = ''Director - People & Culture,'',
     company = ''H&R Block India'', image_url = ''/speakers/speaker_11.jpg'',
     linkedin = Some ''https://www.linkedin.com/in/manojelanjickal''\<rparr>,
    \<lparr>name = ''Varun Palat'', title = ''Deputy Vice President - HR,'',
     company = ''Federal Bank'', image_url = ''/speakers/speaker_12.jpg'',
     linkedin = Some ''https://www.linkedin.com/in/varun-palat-18312912b''\<rparr>,
    \<lparr>name = ''Aditi Radhakrishnan'', title = ''Consultant & Coach,'',
     company = ''Mitara Consulting Services'', image_url = ''/speakers/speaker_14.jpg'',
     linkedin = Some ''https://www.linkedin.com/in/aditiradhakrishnan''\<rparr>,
    \<lparr>name = ''Dr. Thomas George K '', title = ''Director,'',
     company = ''LEAD College (Autonomous)'', image_url = ''/speakers/speaker_17.jpg'',
     linkedin = Some ''https://www.linkedin.com/in/thomasgeorgek''\<rparr>]"

text \<open>\<open>s.includes(sub)\<close>.\<close>

fun includes_str :: "string \<Rightarrow> string \<Rightarrow> bool" where
  "includes_str [] sub \<longleftrightarrow> sub = []"
| "includes_str (c # rest) sub \<longleftrightarrow> take (length sub) (c # rest) = sub \<or> includes_str rest sub"

text \<open>
  The three regular expressions of \<open>convertGoogleDriveUrl\<close> are a literal followed by
  \<open>([a-zA-Z0-9_-]+)\<close>. \<open>match_id lit s\<close> is the capture group of the leftmost match:
  the longest run of identifier characters after the first occurrence of the literal
  that is followed by at least one of them.
\<close>

definition is_id_char :: "char \<Rightarrow> bool" where
  "is_id_char c \<longleftrightarrow>
     (let n = (of_char c :: nat)
      in (97 \<le> n \<and> n \<le> 122) \<or> (65 \<le> n \<and> n \<le> 90) \<or> (48 \<le> n \<and> n \<le> 57) \<or> c = CHR ''_'' \<or> c = CHR ''-'')"

fun match_id :: "string \<Rightarrow> string \<Rightarrow> string option" where
  "match_id lit [] = None"
| "match_id lit (c # rest) =
     (if take (length lit) (c # rest) = lit \<and> takeWhile is_id_char (drop (length lit) (c # rest)) \<noteq> []
      then Some (takeWhile is_id_char (drop (length lit) (c # rest)))
      else match_id lit rest)"

datatype drive_format = Uc | Thumbnail | Proxy

definition convertGoogleDriveUrl :: "string \<Rightarrow> drive_format \<Rightarrow> string" where
  "convertGoogleDriveUrl url format =
     (if url = [] \<or> \<not> includes_str url ''drive.google.com'' then url
      else
        (let fileId1 = (case match_id ''/file/d/'' url of Some m \<Rightarrow> m | None \<Rightarrow> []);
             fileId2 = (if fileId1 = []
                        then (case match_id ''id='' url of Some m \<Rightarrow> m | None \<Rightarrow> fileId1)
                        else fileId1);
             fileId = (if fileId2 = []
                       then (case match_id ''/open?id='' url of Some m \<Rightarrow> m | None \<Rightarrow> fileId2)
                       else fileId2)
         in if fileId = [] then url
            else (case format of
                    Uc \<Rightarrow> ''https://drive.google.com/uc?export=view&id='' @ fileId
                  | Thumbnail \<Rightarrow> ''https://drive.google.com/thumbnail?id='' @ fileId @ ''&sz=w1000''
                  | Proxy \<Rightarrow> ''https://lh3.googleusercontent.com/d/'' @ fileId)))"

text \<open>
  The callback that \<open>fetchSpeakersFromGoogleSheets\<close> maps over the data rows; \<open>None\<close> is
  its \<open>return null\<close>. Nothing in its \<open>try\<close> block can throw, so the \<open>catch\<close> has no branch.
  The \<open>while\<close> loop pads the row with empty strings up to five cells.
\<close>

definition mapRow :: "string list \<Rightarrow> speaker option" where
  "mapRow row0 =
     (if length row0 < 4 then None
      else
        (let row = row0 @ replicate (5 - length row0) [];
             name' = trim (row ! 0);
             title' = trim (row ! 1);
             company' = trim (row ! 2);
             image' = trim (row ! 3);
             linkedin' = trim (row ! 4)
         in if name' = [] \<or> title' = [] \<or> image' = [] then None
            else Some \<lparr>name = name', title = title', company = company',
                       image_url = (if includes_str image' ''drive.google.com''
                                    then convertGoogleDriveUrl image' Uc else image'),
                       linkedin = (if linkedin' = [] then None else Some linkedin')\<rparr>))"

text \<open>\<open>parsedRows.slice(1).map(...).filter(Boolean)\<close>.\<close>

definition mapRows :: "string list list \<Rightarrow> speaker list" where
  "mapRows parsedRows = List.map_filter mapRow (drop 1 parsedRows)"

section \<open>Speakers: the cache slot and the fetch\<close>

text \<open>
  The cache entry that \<open>setCachedData\<close> writes. \<open>Date.now()\<close> is an integer number of
  milliseconds.
\<close>

record cachedSpeakerData =
  data :: "speaker list"
  timestamp :: int

definition CACHE_DURATION :: int where
  "CACHE_DURATION = 5 * 60 * 1000"

text \<open>
  The content of the one \<open>localStorage\<close> slot \<open>CACHE_KEY\<close>. \<open>Json entry\<close> stands for the
  string \<open>JSON.stringify(entry)\<close>, which \<open>JSON.parse\<close> reads back as \<open>entry\<close>; \<open>Garbage\<close>
  stands for a non-empty string that \<open>JSON.parse\<close> rejects. Strings of any other kind
  (the empty string, JSON of another shape) are not written by this module and have no
  constructor. The storage is the slot, absent or present.
\<close>

datatype stored = Json cachedSpeakerData | Garbage

type_synonym storage = "stored option"

definition JSON_parse :: "stored \<Rightarrow> exn + cachedSpeakerData" where
  "JSON_parse raw = (case raw of Json entry \<Rightarrow> Inr entry | Garbage \<Rightarrow> Inl SyntaxError)"

text \<open>
  Where the code runs: with or without \<open>window\<close> (server-side rendering, where
  \<open>localStorage\<close> is not defined either), and with a storage whose operations may throw.
\<close>

record env =
  window_defined :: bool
  getItem_throws :: bool
  setItem_throws :: bool
  removeItem_throws :: bool

definition getItem :: "env \<Rightarrow> storage \<Rightarrow> exn + stored option" where
  "getItem e st =
     (if \<not> window_defined e then Inl ReferenceError
      else if getItem_throws e then Inl StorageError
      else Inr st)"

definition setItem :: "env \<Rightarrow> stored \<Rightarrow> storage \<Rightarrow> (exn + unit) \<times> storage" where
  "setItem e v st =
     (if \<not> window_defined e then (Inl ReferenceError, st)
      else if setItem_throws e then (Inl StorageError, st)
      else (Inr (), Some v))"

definition removeItem :: "env \<Rightarrow> storage \<Rightarrow> (exn + unit) \<times> storage" where
  "removeItem e st =
     (if \<not> window_defined e then (Inl ReferenceError, st)
      else if removeItem_throws e then (Inl StorageError, st)
      else (Inr (), None))"

text \<open>
  \<open>getCachedData\<close>, at time \<open>now\<close>. The inner definition is the \<open>try\<close> block; the outer
  one adds the server-side check and the \<open>catch\<close>, which removes the slot, ignores a
  failure of that removal, and returns \<open>null\<close>.
\<close>

definition getCachedData_try :: "env \<Rightarrow> int \<Rightarrow> storage \<Rightarrow> (exn + speaker list option) \<times> storage" where
  "getCachedData_try e now st =
     (case getItem e st of
        Inl err \<Rightarrow> (Inl err, st)
      | Inr None \<Rightarrow> (Inr None, st)
      | Inr (Some cached) \<Rightarrow>
          (case JSON_parse cached of
             Inl err \<Rightarrow> (Inl err, st)
           | Inr parsedCache \<Rightarrow>
               if now - timestamp parsedCache < CACHE_DURATION
               then (Inr (Some (data parsedCache)), st)
               else (case removeItem e st of
                       (Inl err, st') \<Rightarrow> (Inl err, st')
                     | (Inr u, st') \<Rightarrow> (Inr None, st'))))"

definition getCachedData :: "env \<Rightarrow> int \<Rightarrow> storage \<Rightarrow> speaker list option \<times> storage" where
  "getCachedData e now st =
     (if \<not> window_defined e then (None, st)
      else (case getCachedData_try e now st of
              (Inr r, st') \<Rightarrow> (r, st')
            | (Inl err, st') \<Rightarrow> (None, snd (removeItem e st'))))"

definition setCachedData :: "env \<Rightarrow> int \<Rightarrow> speaker list \<Rightarrow> storage \<Rightarrow> storage" where
  "setCachedData e now d st =
     (if \<not> window_defined e then st
      else snd (setItem e (Json \<lparr>data = d, timestamp = now\<rparr>) st))"

text \<open>
  The two \<open>fetch\<close> calls: the second one is made only when the first response is not
  \<open>ok\<close>. \<open>fetch_csv\<close> is the \<open>try\<close> block up to \<open>await response.text()\<close>: \<open>Inl\<close> is an
  exception thrown there (a rejected fetch, the abort of the 10 s timer, the
  \<open>HTTP error\<close> thrown for a response that is not \<open>ok\<close>, a failing body read).
\<close>

record network =
  primary :: fetch_outcome
  secondary :: fetch_outcome

definition fetch_csv :: "network \<Rightarrow> exn + string" where
  "fetch_csv net =
     (case primary net of
        Rejects err \<Rightarrow> Inl err
      | Responds ok1 body1 \<Rightarrow>
          (case (if \<not> ok1 then secondary net else Responds ok1 body1) of
             Rejects err \<Rightarrow> Inl err
           | Responds ok2 body2 \<Rightarrow> if \<not> ok2 then Inl HttpError else body2))"

text \<open>The rest of the \<open>try\<close> block, from the CSV text on; \<open>now\<close> is the time of the write.\<close>

definition process_csv :: "env \<Rightarrow> int \<Rightarrow> string \<Rightarrow> storage \<Rightarrow> speaker list \<times> storage" where
  "process_csv e now csvText st =
     (if trim csvText = [] then (fallbackSpeakers, st)
      else
        (let parsedRows = parseCSVData csvText
         in if length parsedRows \<le> 1 then (fallbackSpeakers, st)
            else
              (let speakers = mapRows parsedRows
               in if length speakers = 0 then (fallbackSpeakers, st)
                  else (speakers, setCachedData e now speakers st))))"

text \<open>The \<open>catch\<close> block: the slot is read without the freshness test.\<close>

definition expired_cache :: "env \<Rightarrow> storage \<Rightarrow> speaker list option" where
  "expired_cache e st =
     (case getItem e st of
        Inl err \<Rightarrow> None
      | Inr None \<Rightarrow> None
      | Inr (Some cached) \<Rightarrow>
          (case JSON_parse cached of
             Inl err \<Rightarrow> None
           | Inr parsedCache \<Rightarrow> Some (data parsedCache)))"

definition on_failure :: "env \<Rightarrow> storage \<Rightarrow> speaker list" where
  "on_failure e st = (case expired_cache e st of Some d \<Rightarrow> d | None \<Rightarrow> fallbackSpeakers)"

text \<open>
  What precedes the \<open>try\<close> block: the cache check, or the removal of the slot on a forced
  refresh. The result is \<open>cachedData\<close> (\<open>None\<close> where the code has no value or \<open>null\<close>; an
  array, also an empty one, is truthy) and the storage.
\<close>

definition check_cache :: "env \<Rightarrow> bool \<Rightarrow> int \<Rightarrow> storage \<Rightarrow> speaker list option \<times> storage" where
  "check_cache e forceRefresh now st =
     (if \<not> forceRefresh then getCachedData e now st
      else if window_defined e then (None, snd (removeItem e st))
      else (None, st))"

text \<open>
  \<open>fetchSpeakersFromGoogleSheets\<close>. \<open>now_read\<close> and \<open>now_write\<close> are the values of
  \<open>Date.now()\<close> in \<open>getCachedData\<close> and in \<open>setCachedData\<close>. \<open>Inl\<close> would be an exception
  reaching the caller, \<open>Inr\<close> is the resolved value with the storage left behind.
\<close>

definition fetchSpeakersFromGoogleSheets ::
    "env \<Rightarrow> bool \<Rightarrow> int \<Rightarrow> int \<Rightarrow> network \<Rightarrow> storage \<Rightarrow> exn + (speaker list \<times> storage)" where
  "fetchSpeakersFromGoogleSheets e forceRefresh now_read now_write net st =
     (case check_cache e forceRefresh now_read st of
        (Some cachedData, st1) \<Rightarrow> Inr (cachedData, st1)
      | (None, st1) \<Rightarrow>
          (case fetch_csv net of
             Inr csvText \<Rightarrow> Inr (process_csv e now_write csvText st1)
           | Inl err \<Rightarrow> Inr (on_failure e st1, st1)))"

text \<open>
  The slot as \<open>setCachedData\<close> leaves it when it is called from
  \<open>fetchSpeakersFromGoogleSheets\<close> only: absent, or an entry with at least one record.
\<close>

definition written_by_setCachedData :: "storage \<Rightarrow> bool" where
  "written_by_setCachedData st \<longleftrightarrow>
     (case st of None \<Rightarrow> True | Some (Json entry) \<Rightarrow> data entry \<noteq> [] | Some Garbage \<Rightarrow> False)"

section \<open>A standard CSV serializer and well-formed CSV text\<close>

text \<open>
  The repository has no serializer. \<open>serializeCSV\<close> follows the description of the
  round-trip property: a cell that contains a comma or a quote is enclosed in quotes with
  its quotes doubled, cells are joined by commas and rows by line feeds.
\<close>

fun intercalate :: "'a list \<Rightarrow> 'a list list \<Rightarrow> 'a list" where
  "intercalate sep [] = []"
| "intercalate sep [x] = x"
| "intercalate sep (x # y # ys) = x @ sep @ intercalate sep (y # ys)"

definition double_quotes :: "string \<Rightarrow> string" where
  "double_quotes cell = concat (map (\<lambda>c. if c = DQ then [DQ, DQ] else [c]) cell)"

definition serialize_cell :: "string \<Rightarrow> string" where
  "serialize_cell cell =
     (if COMMA \<in> set cell \<or> DQ \<in> set cell then [DQ] @ double_quotes cell @ [DQ] else cell)"

definition serialize_row :: "string list \<Rightarrow> string" where
  "serialize_row row = intercalate [COMMA] (map serialize_cell row)"

definition serializeCSV :: "string list list \<Rightarrow> string" where
  "serializeCSV grid = intercalate [LF] (map serialize_row grid)"

text \<open>
  Well-formed CSV text, as a recogniser: a field is either free of quotes, or enclosed in
  quotes with every quote inside doubled; fields end at a comma, records at a line feed.
\<close>

datatype csv_state = FieldStart | Unquoted | Quoted | QuoteSeen

fun csv_step :: "csv_state \<Rightarrow> char \<Rightarrow> csv_state option" where
  "csv_step FieldStart c =
     (if c = DQ then Some Quoted else if c = COMMA \<or> c = LF then Some FieldStart else Some Unquoted)"
| "csv_step Unquoted c =
     (if c = DQ then None else if c = COMMA \<or> c = LF then Some FieldStart else Some Unquoted)"
| "csv_step Quoted c = (if c = DQ then Some QuoteSeen else Some Quoted)"
| "csv_step QuoteSeen c =
     (if c = DQ then Some Quoted else if c = COMMA \<or> c = LF then Some FieldStart else None)"

fun csv_run :: "csv_state \<Rightarrow> string \<Rightarrow> csv_state option" where
  "csv_run s [] = Some s"
| "csv_run s (c # rest) = (case csv_step s c of None \<Rightarrow> None | Some s' \<Rightarrow> csv_run s' rest)"

definition well_formed_csv :: "string \<Rightarrow> bool" where
  "well_formed_csv text \<longleftrightarrow> csv_run FieldStart text \<in> {Some FieldStart, Some Unquoted, Some QuoteSeen}"

text \<open>A cell that the clean-up of \<open>parseCSVLine\<close> would strip again.\<close>

definition quote_wrapped :: "string \<Rightarrow> bool" where
  "quote_wrapped cell \<longleftrightarrow> startsWithDQ cell \<and> endsWithDQ cell"

text \<open>Case-insensitive comparison of two strings: equal once both are lower-cased.\<close>

definition equals_ignoring_case :: "string \<Rightarrow> string \<Rightarrow> bool" where
  "equals_ignoring_case a b \<longleftrightarrow> toLowerCase a = toLowerCase b"

text \<open>What the clean-up of \<open>parseCSVLine\<close> guarantees for a cell.\<close>

definition clean_cell :: "string \<Rightarrow> bool" where
  "clean_cell cell \<longleftrightarrow> trim cell = cell \<and> CR \<notin> set cell \<and> LF \<notin> set cell"

section \<open>Facts about the string primitives and the line joiner\<close>

lemma trim_Nil: "trim [] = []" by (simp add: trim_def)

lemma not_ws_DQ: "\<not> is_ws DQ" by (simp add: is_ws_def)

lemma trim_keeps: "x \<in> set s \<Longrightarrow> \<not> is_ws x \<Longrightarrow> x \<in> set (trim s)"
proof -
  assume a: "x \<in> set s" "\<not> is_ws x"
  have 1: "x \<in> set (dropWhile is_ws s)" using a
    by (induction s) auto
  have 2: "\<And>t. x \<in> set t \<Longrightarrow> x \<in> set (dropWhile is_ws t)" using a(2)
  proof -
    fix t show "x \<in> set t \<Longrightarrow> x \<in> set (dropWhile is_ws t)" using a(2) by (induction t) auto
  qed
  show ?thesis unfolding trim_def using 2[of "rev (dropWhile is_ws s)"] 1 by simp
qed

lemma quoteCount_simps:
  "quoteCount [] = 0"
  "quoteCount (c # s) = (if c = DQ then Suc (quoteCount s) else quoteCount s)"
  "quoteCount (s @ t) = quoteCount s + quoteCount t"
  by (simp_all add: quoteCount_def)

lemma odd_quoteCount_trim: "odd (quoteCount s) \<Longrightarrow> trim s \<noteq> []"
proof -
  assume o: "odd (quoteCount s)"
  have "DQ \<in> set s"
  proof (rule ccontr)
    assume "DQ \<notin> set s"
    then have "filter (\<lambda>c. c = DQ) s = []" by (auto simp: filter_empty_conv)
    then have "quoteCount s = 0" by (simp add: quoteCount_def)
    with o show False by simp
  qed
  then have "DQ \<in> set (trim s)" by (rule trim_keeps) (rule not_ws_DQ)
  then show ?thesis by auto
qed

lemma split_lf_not_Nil: "split_lf s \<noteq> []"
  by (induction s) (auto split: list.splits)

lemma split_lf_snoc_LF: "split_lf (s @ [LF]) = split_lf s @ [[]]"
  using split_lf_not_Nil by (induction s) (auto split: list.splits)

lemma quoteCount_split_lf: "sum_list (map quoteCount (split_lf s)) = quoteCount s"
  by (induction s) (auto simp: quoteCount_simps split: list.splits)

lemma join_lines_append:
  "join_lines ls cur (xs @ ys) = (case join_lines ls cur xs of (ls', cur') \<Rightarrow> join_lines ls' cur' ys)"
  by (induction xs arbitrary: ls cur) (auto simp: Let_def)

lemma join_lines_parity:
  "even (quoteCount (snd (join_lines ls cur raws))) = even (quoteCount cur + sum_list (map quoteCount raws))"
  by (induction raws arbitrary: ls cur) (auto simp: Let_def quoteCount_simps)

lemma join_lines_rest:
  "cur = [] \<or> odd (quoteCount cur) \<Longrightarrow>
   snd (join_lines ls cur raws) = [] \<or> odd (quoteCount (snd (join_lines ls cur raws)))"
  by (induction raws arbitrary: ls cur) (auto simp: Let_def quoteCount_simps)

lemma join_lines_some:
  "raws \<noteq> [] \<or> ls \<noteq> [] \<or> odd (quoteCount cur) \<Longrightarrow> cur = [] \<or> odd (quoteCount cur) \<Longrightarrow>
   fst (join_lines ls cur raws) \<noteq> [] \<or> odd (quoteCount (snd (join_lines ls cur raws)))"
  by (induction raws arbitrary: ls cur) (auto simp: Let_def quoteCount_simps)

lemma parseCSVLine_Nil: "parseCSVLine [] = [[]]"
  by (simp add: parseCSVLine_def clean_field_def trim_def startsWithDQ_def replace_cr_def)

lemma parseCSVData_not_Nil: "parseCSVData t \<noteq> []"
proof -
  obtain ls cur where j: "join_lines [] [] (split_lf t) = (ls, cur)" by (cases "join_lines [] [] (split_lf t)")
  from join_lines_some[of "split_lf t" "[]" "[]"] split_lf_not_Nil[of t] j
  have "ls \<noteq> [] \<or> odd (quoteCount cur)" by simp
  then show ?thesis using j odd_quoteCount_trim[of cur] by (auto simp: parseCSVData_def)
qed

lemma parseCSVData_trailing_LF:
  assumes "even (quoteCount t)"
  shows "parseCSVData (t @ [LF]) = parseCSVData t @ [[[]]]"
proof -
  obtain ls cur where j: "join_lines [] [] (split_lf t) = (ls, cur)" by (cases "join_lines [] [] (split_lf t)")
  have "even (quoteCount cur)"
    using join_lines_parity[of "[]" "[]" "split_lf t"] j assms by (simp add: quoteCount_split_lf quoteCount_simps)
  moreover have "cur = [] \<or> odd (quoteCount cur)"
    using join_lines_rest[of "[]" "[]" "split_lf t"] j by simp
  ultimately have c: "cur = []" by blast
  have "join_lines [] [] (split_lf (t @ [LF])) = (ls @ [[]], [])"
    by (simp add: split_lf_snoc_LF join_lines_append j c quoteCount_simps)
  then show ?thesis using j c by (simp add: parseCSVData_def trim_Nil parseCSVLine_Nil)
qed

section \<open>The speakers CSV parser on empty input, trailing line feeds and quoted fields\<close>

text \<open>
  Claim C2, as the code has it. \<open>split\<close> gives one (empty) piece for the empty text and a
  last empty piece for a text that ends in a line feed; the loop of \<open>parseCSVData\<close> pushes
  every buffer with an even number of quotes, the empty one too, and \<open>parseCSVLine\<close> always
  returns a last cell. So the empty text parses to one row with one empty cell,
  \<open>parseCSVData\<close> never returns zero rows, and a text with an even number of quotes followed
  by a line feed parses to the rows of the text and one more row with one empty cell.
\<close>

theorem parseCSVData_empty_and_trailing_line_feed:
  "parseCSVData [] = [[[]]] \<and> parseCSVData t \<noteq> [] \<and>
   (even (quoteCount t) \<longrightarrow> parseCSVData (t @ [LF]) = parseCSVData t @ [[[]]])"
proof -
  have "parseCSVData [] = [[[]]]" by code_simp
  then show ?thesis using parseCSVData_not_Nil parseCSVData_trailing_LF by blast
qed

theorem parseCSVData_empty_and_trailing_line_feed_witness:
  "even (quoteCount ''a,b'') \<and> parseCSVData ''a,b\<newline>'' = [[''a'', ''b''], ['''']]"
proof -
  have e: "even (quoteCount ''a,b'')" by (simp add: quoteCount_def)
  have p: "parseCSVData ''a,b'' = [[''a'', ''b'']]" by code_simp
  have "parseCSVData (''a,b'' @ [LF]) = parseCSVData ''a,b'' @ [[[]]]"
    using parseCSVData_empty_and_trailing_line_feed[of "''a,b''"] e by blast
  then show ?thesis using e p by simp
qed

text \<open>
  Claim C2 as stated (zero rows for the empty text, no row for a trailing empty line) fails:
  the empty text gives one row, and \<open>a,b\<close> followed by a line feed gives two.
\<close>

theorem parseCSVData_zero_rows_counterexample:
  \<open>parseCSVData '''' = [['''']] \<and> parseCSVData ''a,b\<newline>'' = [[''a'', ''b''], ['''']]\<close>
  by code_simp


section \<open>The scanner: derived equations, quote parity, scanning a concatenation\<close>

lemma scan_esc: "scan r c True (DQ # DQ # rest) = scan r (c @ [DQ]) True rest" by simp
lemma scan_open: "scan r c False (DQ # rest) = scan r c True rest" by (cases rest) simp_all
lemma scan_close_end: "scan r c True [DQ] = (r, c, False)" by simp
lemma scan_close: "d \<noteq> DQ \<Longrightarrow> scan r c True (DQ # d # rest) = scan r c False (d # rest)" by simp
lemma scan_comma: "scan r c False (COMMA # rest) = scan (r @ [trim c]) [] False rest" by simp
lemma scan_cr: "scan r c False (CR # rest) = scan r c False rest" by simp
lemma scan_lf: "scan r c False (LF # rest) = (r, c, False)" by simp
lemma scan_plain:
  "x \<noteq> DQ \<Longrightarrow> x \<noteq> COMMA \<Longrightarrow> x \<noteq> CR \<Longrightarrow> x \<noteq> LF \<Longrightarrow>
   scan r c False (x # rest) = scan r (c @ [x]) False rest" by simp
lemma scan_plain':
  "x \<noteq> DQ \<Longrightarrow> x \<noteq> COMMA \<Longrightarrow> x \<noteq> CR \<Longrightarrow> LF \<noteq> x \<Longrightarrow>
   scan r c False (x # rest) = scan r (c @ [x]) False rest" by simp
lemma scan_quoted: "x \<noteq> DQ \<Longrightarrow> scan r c True (x # rest) = scan r (c @ [x]) True rest" by simp

lemmas scan_rules = scan.simps(1) scan_esc scan_open scan_close_end scan_close scan_comma scan_cr
  scan_lf scan_plain scan_plain' scan_quoted

declare scan.simps(2) [simp del]

lemma scan_inQuotes_parity:
  "LF \<notin> set l \<Longrightarrow> snd (snd (scan r c q l)) = (q \<noteq> odd (quoteCount l))"
proof (induction l arbitrary: r c q rule: length_induct)
  case (1 l)
  show ?case
  proof (cases l)
    case Nil
    then show ?thesis by (simp add: quoteCount_simps)
  next
    case (Cons x l')
    note xl = Cons
    show ?thesis
    proof (cases q)
      case False
      then show ?thesis using 1 xl
        by (cases "x = DQ"; cases "x = COMMA"; cases "x = CR") (simp_all add: scan_rules quoteCount_simps)
    next
      case True
      show ?thesis
      proof (cases "x = DQ")
        case False
        then show ?thesis using 1 xl True by (simp add: scan_rules quoteCount_simps)
      next
        case xdq: True
        show ?thesis
        proof (cases l')
          case Nil
          then show ?thesis using xl True xdq by (simp add: scan_rules quoteCount_simps)
        next
          case (Cons d l'')
          then show ?thesis using 1 xl True xdq
            by (cases "d = DQ") (simp_all add: scan_rules quoteCount_simps)
        qed
      qed
    qed
  qed
qed

lemma scan_append:
  "LF \<notin> set l \<Longrightarrow> rest = [] \<or> hd rest \<noteq> DQ \<Longrightarrow>
   scan r c q (l @ rest) = (case scan r c q l of (r', c', q') \<Rightarrow> scan r' c' q' rest)"
proof (induction l arbitrary: r c q rule: length_induct)
  case (1 l)
  show ?case
  proof (cases l)
    case Nil
    then show ?thesis by simp
  next
    case (Cons x l')
    note xl = Cons
    show ?thesis
    proof (cases q)
      case False
      then show ?thesis using 1 xl
        by (cases "x = DQ"; cases "x = COMMA"; cases "x = CR") (simp_all add: scan_rules)
    next
      case True
      show ?thesis
      proof (cases "x = DQ")
        case False
        then show ?thesis using 1 xl True by (simp add: scan_rules)
      next
        case xdq: True
        show ?thesis
        proof (cases l')
          case Nil
          then show ?thesis using xl True xdq 1(2,3)
            by (cases rest) (simp_all add: scan_rules)
        next
          case (Cons d l'')
          show ?thesis
          proof (cases "d = DQ")
            case True
            then show ?thesis using 1 xl Cons \<open>q\<close> xdq by (simp add: scan_rules)
          next
            case False
            have "scan r c False (l' @ rest) =
                  (case scan r c False l' of (r', c', q') \<Rightarrow> scan r' c' q' rest)"
              using 1(1)[rule_format, of l' r c False] xl 1(2,3) by simp
            then show ?thesis using xl Cons \<open>q\<close> xdq False by (simp add: scan_rules)
          qed
        qed
      qed
    qed
  qed
qed

lemma scan_comma_end:
  assumes "LF \<notin> set l" "even (quoteCount l)"
  shows "scan [] [] False (l @ [COMMA]) =
         (fst (scan [] [] False l) @ [trim (fst (snd (scan [] [] False l)))], [], False)"
proof -
  obtain r' c' q' where s: "scan [] [] False l = (r', c', q')" by (cases "scan [] [] False l")
  have "q' = False" using scan_inQuotes_parity[OF assms(1), of "[]" "[]" False] s assms(2) by simp
  then show ?thesis using scan_append[OF assms(1), of "[COMMA]" "[]" "[]" False] s
    by (simp add: scan_rules)
qed

lemma clean_field_Nil: "clean_field [] = []"
  by (simp add: clean_field_def trim_def startsWithDQ_def replace_cr_def)

text \<open>
  Claim C10. The line parser of the speakers module always returns at least one cell, since
  it pushes the last field unconditionally. For a line \<open>l,\<close> that ends in a comma outside
  quotes (\<open>l\<close> has no line feed and an even number of quotes), the line parser of the sold-out
  module returns one cell fewer than the one of the speakers module: the speakers result
  ends in an empty cell, and without that cell it is the sold-out result, cleaned.
\<close>

theorem soldOut_parseCSVLine_omits_trailing_empty_cell:
  "parseCSVLine line \<noteq> [] \<and>
   (LF \<notin> set l \<and> even (quoteCount l) \<longrightarrow>
      length (soldOut_parseCSVLine (l @ [COMMA])) + 1 = length (parseCSVLine (l @ [COMMA])) \<and>
      last (parseCSVLine (l @ [COMMA])) = [] \<and>
      map clean_field (soldOut_parseCSVLine (l @ [COMMA])) = butlast (parseCSVLine (l @ [COMMA])))"
proof -
  have a: "parseCSVLine line \<noteq> []"
    by (cases "scan [] [] False line") (simp add: parseCSVLine_def)
  have b: "length (soldOut_parseCSVLine (l @ [COMMA])) + 1 = length (parseCSVLine (l @ [COMMA])) \<and>
      last (parseCSVLine (l @ [COMMA])) = [] \<and>
      map clean_field (soldOut_parseCSVLine (l @ [COMMA])) = butlast (parseCSVLine (l @ [COMMA]))"
    if h: "LF \<notin> set l" "even (quoteCount l)"
    using scan_comma_end[OF h]
    by (simp add: soldOut_parseCSVLine_def parseCSVLine_def trim_Nil clean_field_Nil butlast_append)
  show ?thesis using a b by blast
qed

theorem soldOut_parseCSVLine_omits_trailing_empty_cell_witness:
  "LF \<notin> set ''a,b'' \<and> even (quoteCount ''a,b'') \<and>
   soldOut_parseCSVLine ''a,b,'' = [''a'', ''b''] \<and> parseCSVLine ''a,b,'' = [''a'', ''b'', []] \<and>
   length (soldOut_parseCSVLine ''a,b,'') + 1 = length (parseCSVLine ''a,b,'')"
proof -
  have h: "LF \<notin> set ''a,b'' \<and> even (quoteCount ''a,b'')" by (simp add: quoteCount_def)
  have s: "soldOut_parseCSVLine ''a,b,'' = [''a'', ''b'']" by code_simp
  have p: "parseCSVLine ''a,b,'' = [''a'', ''b'', []]" by code_simp
  have "length (soldOut_parseCSVLine (''a,b'' @ [COMMA])) + 1 = length (parseCSVLine (''a,b'' @ [COMMA]))"
    using soldOut_parseCSVLine_omits_trailing_empty_cell[of "[]" "''a,b''"] h by blast
  then show ?thesis using h s p by simp
qed

section \<open>The sold-out flag\<close>

lemma char_as_nat: "(x = c) = ((of_char x :: nat) = of_char c)"
  by simp

lemma upper_char_TRUE:
  "upper_char x = CHR ''T'' \<longleftrightarrow> x = CHR ''T'' \<or> x = CHR ''t''"
  "upper_char x = CHR ''R'' \<longleftrightarrow> x = CHR ''R'' \<or> x = CHR ''r''"
  "upper_char x = CHR ''U'' \<longleftrightarrow> x = CHR ''U'' \<or> x = CHR ''u''"
  "upper_char x = CHR ''E'' \<longleftrightarrow> x = CHR ''E'' \<or> x = CHR ''e''"
proof -
  define n where "n = (of_char x :: nat)"
  have lt: "n < 256" by (simp add: n_def)
  have xn: "\<And>c. (x = c) = (n = of_char c)" unfolding n_def by simp
  have up: "\<And>c. (upper_char x = c) =
              (if 97 \<le> n \<and> n \<le> 122 then n - 32 = of_char c else n = of_char c)"
    using lt by (simp add: upper_char_def Let_def n_def[symmetric] char_of_eq_iff take_bit_eq_mod xn)
  show "upper_char x = CHR ''T'' \<longleftrightarrow> x = CHR ''T'' \<or> x = CHR ''t''"
    unfolding up xn by auto
  show "upper_char x = CHR ''R'' \<longleftrightarrow> x = CHR ''R'' \<or> x = CHR ''r''"
    unfolding up xn by auto
  show "upper_char x = CHR ''U'' \<longleftrightarrow> x = CHR ''U'' \<or> x = CHR ''u''"
    unfolding up xn by auto
  show "upper_char x = CHR ''E'' \<longleftrightarrow> x = CHR ''E'' \<or> x = CHR ''e''"
    unfolding up xn by auto
qed

lemma lower_char_true:
  "lower_char x = CHR ''t'' \<longleftrightarrow> x = CHR ''T'' \<or> x = CHR ''t''"
  "lower_char x = CHR ''r'' \<longleftrightarrow> x = CHR ''R'' \<or> x = CHR ''r''"
  "lower_char x = CHR ''u'' \<longleftrightarrow> x = CHR ''U'' \<or> x = CHR ''u''"
  "lower_char x = CHR ''e'' \<longleftrightarrow> x = CHR ''E'' \<or> x = CHR ''e''"
proof -
  define n where "n = (of_char x :: nat)"
  have lt: "n < 256" by (simp add: n_def)
  have xn: "\<And>c. (x = c) = (n = of_char c)" unfolding n_def by simp
  have lo: "\<And>c. (lower_char x = c) =
              (if 65 \<le> n \<and> n \<le> 90 then n + 32 = of_char c else n = of_char c)"
    using lt by (simp add: lower_char_def Let_def n_def[symmetric] char_of_eq_iff take_bit_eq_mod xn)
  show "lower_char x = CHR ''t'' \<longleftrightarrow> x = CHR ''T'' \<or> x = CHR ''t''"
    unfolding lo xn by auto
  show "lower_char x = CHR ''r'' \<longleftrightarrow> x = CHR ''R'' \<or> x = CHR ''r''"
    unfolding lo xn by auto
  show "lower_char x = CHR ''u'' \<longleftrightarrow> x = CHR ''U'' \<or> x = CHR ''u''"
    unfolding lo xn by auto
  show "lower_char x = CHR ''e'' \<longleftrightarrow> x = CHR ''E'' \<or> x = CHR ''e''"
    unfolding lo xn by auto
qed

lemma toUpperCase_TRUE: "toUpperCase v = ''TRUE'' \<longleftrightarrow> equals_ignoring_case v ''TRUE''"
proof -
  have l: "toLowerCase ''TRUE'' = ''true''" by code_simp
  show ?thesis
    unfolding equals_ignoring_case_def l
    by (simp add: toUpperCase_def toLowerCase_def map_eq_Cons_conv upper_char_TRUE lower_char_true)
qed

text \<open>
  Claim C8. For a response that is \<open>ok\<close> with at least two non-blank lines and a header
  line in which \<open>findIndex\<close> finds the \<open>Sold Out\<close> column at index \<open>k\<close>, the flag is true
  exactly when the first data row has a cell at index \<open>k\<close> and that cell, trimmed, equals
  \<open>TRUE\<close> up to case. An absent cell and every other value, the empty one too, give false.
\<close>

theorem fetchSoldOutStatus_flag:
  assumes "lines = filter (\<lambda>line. trim line \<noteq> []) (split_lf csvText)"
    and "2 \<le> length lines"
    and "findIndex (\<lambda>header. trim (toLowerCase header) = ''sold out'')
           (soldOut_parseCSVLine (lines ! 0)) = Some k"
    and "dataRow = soldOut_parseCSVLine (lines ! 1)"
  shows "isSoldOut (fetchSoldOutStatus (Responds True (Inr csvText))) \<longleftrightarrow>
           k < length dataRow \<and> equals_ignoring_case (trim (dataRow ! k)) ''TRUE''"
proof -
  have "fetchSoldOutStatus (Responds True (Inr csvText)) =
          \<lparr>isSoldOut = ((if k < length dataRow then Some (toUpperCase (trim (dataRow ! k))) else None)
                         = Some ''TRUE'')\<rparr>"
    using assms by (simp add: fetchSoldOutStatus_def Let_def)
  then show ?thesis by (simp add: toUpperCase_TRUE)
qed

theorem fetchSoldOutStatus_flag_witness:
  "isSoldOut (fetchSoldOutStatus (Responds True (Inr ''Event,Sold Out\<newline>Elevate, True \<newline>''))) \<and>
   \<not> isSoldOut (fetchSoldOutStatus (Responds True (Inr ''Event,Sold Out\<newline>Elevate,\<newline>'')))"
proof -
  let ?t1 = "''Event,Sold Out\<newline>Elevate, True \<newline>''"
  let ?t2 = "''Event,Sold Out\<newline>Elevate,\<newline>''"
  have l1: "[''Event,Sold Out'', ''Elevate, True ''] = filter (\<lambda>line. trim line \<noteq> []) (split_lf ?t1)"
    by code_simp
  have l2: "[''Event,Sold Out'', ''Elevate,''] = filter (\<lambda>line. trim line \<noteq> []) (split_lf ?t2)"
    by code_simp
  have n1: "2 \<le> length [''Event,Sold Out'', ''Elevate, True '']" by simp
  have n2: "2 \<le> length [''Event,Sold Out'', ''Elevate,'']" by simp
  have h1: "findIndex (\<lambda>header. trim (toLowerCase header) = ''sold out'')
           (soldOut_parseCSVLine ([''Event,Sold Out'', ''Elevate, True ''] ! 0)) = Some 1"
    by code_simp
  have h2: "findIndex (\<lambda>header. trim (toLowerCase header) = ''sold out'')
           (soldOut_parseCSVLine ([''Event,Sold Out'', ''Elevate,''] ! 0)) = Some 1"
    by code_simp
  have d1: "[''Elevate'', ''True''] = soldOut_parseCSVLine ([''Event,Sold Out'', ''Elevate, True ''] ! 1)"
    by code_simp
  have d2: "[''Elevate''] = soldOut_parseCSVLine ([''Event,Sold Out'', ''Elevate,''] ! 1)"
    by code_simp
  have e: "equals_ignoring_case (trim ([''Elevate'', ''True''] ! 1)) ''TRUE''"
    by code_simp
  show ?thesis
    using fetchSoldOutStatus_flag[OF l1 n1 h1 d1] fetchSoldOutStatus_flag[OF l2 n2 h2 d2] e
    by simp
qed

section \<open>The row mapper\<close>

lemma last_dropWhile: "dropWhile P xs \<noteq> [] \<Longrightarrow> last (dropWhile P xs) = last xs"
  by (induction xs) (auto split: if_splits)

lemma trim_ends:
  assumes "trim s \<noteq> []"
  shows "\<not> is_ws (hd (trim s))" and "\<not> is_ws (last (trim s))"
proof -
  let ?a = "dropWhile is_ws s"
  let ?b = "dropWhile is_ws (rev ?a)"
  have t: "trim s = rev ?b" by (simp add: trim_def)
  have b: "?b \<noteq> []" using assms t by simp
  have a: "?a \<noteq> []"
  proof
    assume e: "?a = []"
    have "?b = []" unfolding e by simp
    with b show False by simp
  qed
  have "\<not> is_ws (hd ?b)" using b by (rule hd_dropWhile)
  then show "\<not> is_ws (last (trim s))" using b by (simp add: t last_rev)
  have "last ?b = last (rev ?a)" using b by (rule last_dropWhile)
  also have "\<dots> = hd ?a" using a by (simp add: last_rev)
  finally have "hd (trim s) = hd ?a" using b by (simp add: t hd_rev)
  moreover have "\<not> is_ws (hd ?a)" using a by (rule hd_dropWhile)
  ultimately show "\<not> is_ws (hd (trim s))" by simp
qed

lemma is_id_char_not_ws: "is_id_char c \<Longrightarrow> \<not> is_ws c"
proof -
  have xn: "\<And>d. (c = d) = ((of_char c :: nat) = of_char d)" by simp
  show "is_id_char c \<Longrightarrow> \<not> is_ws c"
    unfolding is_id_char_def is_ws_def Let_def insert_iff empty_iff xn by auto
qed

lemma match_id_Some:
  "match_id lit s = Some m \<Longrightarrow> m \<noteq> [] \<and> (\<forall>c \<in> set m. is_id_char c)"
proof (induction s)
  case Nil
  then show ?case by simp
next
  case (Cons a s)
  show ?case
  proof (cases "take (length lit) (a # s) = lit \<and> takeWhile is_id_char (drop (length lit) (a # s)) \<noteq> []")
    case True
    then have "m = takeWhile is_id_char (drop (length lit) (a # s))" using Cons.prems by simp
    then show ?thesis using True by (auto dest: set_takeWhileD)
  next
    case False
    have "match_id lit (a # s) = match_id lit s"
      using False unfolding match_id.simps(2) by (simp only: if_False)
    then have "match_id lit s = Some m" using Cons.prems by simp
    then show ?thesis by (rule Cons.IH)
  qed
qed

lemma convertGoogleDriveUrl_Uc_ends:
  assumes "u \<noteq> []" "\<not> is_ws (hd u)" "\<not> is_ws (last u)"
  shows "convertGoogleDriveUrl u Uc \<noteq> [] \<and> \<not> is_ws (hd (convertGoogleDriveUrl u Uc))
         \<and> \<not> is_ws (last (convertGoogleDriveUrl u Uc))"
proof -
  have pre: "\<And>m. m \<noteq> [] \<Longrightarrow> (\<forall>c \<in> set m. is_id_char c) \<Longrightarrow>
     ''https://drive.google.com/uc?export=view&id='' @ m \<noteq> [] \<and>
     \<not> is_ws (hd (''https://drive.google.com/uc?export=view&id='' @ m)) \<and>
     \<not> is_ws (last (''https://drive.google.com/uc?export=view&id='' @ m))"
  proof -
    fix m :: string
    assume m: "m \<noteq> []" "\<forall>c \<in> set m. is_id_char c"
    have "last m \<in> set m" using m(1) by simp
    then have "\<not> is_ws (last m)" using m(2) is_id_char_not_ws by blast
    then show "''https://drive.google.com/uc?export=view&id='' @ m \<noteq> [] \<and>
     \<not> is_ws (hd (''https://drive.google.com/uc?export=view&id='' @ m)) \<and>
     \<not> is_ws (last (''https://drive.google.com/uc?export=view&id='' @ m))"
      using m(1) by (simp add: is_ws_def)
  qed
  define f1 where "f1 = (case match_id ''/file/d/'' u of Some m \<Rightarrow> m | None \<Rightarrow> [])"
  define f2 where "f2 = (if f1 = [] then (case match_id ''id='' u of Some m \<Rightarrow> m | None \<Rightarrow> f1) else f1)"
  define f3 where "f3 = (if f2 = [] then (case match_id ''/open?id='' u of Some m \<Rightarrow> m | None \<Rightarrow> f2) else f2)"
  have i1: "\<forall>c \<in> set f1. is_id_char c"
    unfolding f1_def using match_id_Some[of "''/file/d/''" u] by (cases "match_id ''/file/d/'' u") simp_all
  have i2: "\<forall>c \<in> set f2. is_id_char c"
    unfolding f2_def using i1 match_id_Some[of "''id=''" u] by (cases "match_id ''id='' u") simp_all
  have i3: "\<forall>c \<in> set f3. is_id_char c"
    unfolding f3_def using i2 match_id_Some[of "''/open?id=''" u] by (cases "match_id ''/open?id='' u") simp_all
  have r: "convertGoogleDriveUrl u Uc =
             (if u = [] \<or> \<not> includes_str u ''drive.google.com'' then u
              else if f3 = [] then u else ''https://drive.google.com/uc?export=view&id='' @ f3)"
    unfolding convertGoogleDriveUrl_def Let_def f3_def f2_def f1_def by simp
  show ?thesis
  proof (cases "u = [] \<or> \<not> includes_str u ''drive.google.com'' \<or> f3 = []")
    case True
    then have "convertGoogleDriveUrl u Uc = u" unfolding r by auto
    then show ?thesis using assms by simp
  next
    case False
    then have "convertGoogleDriveUrl u Uc = ''https://drive.google.com/uc?export=view&id='' @ f3"
      unfolding r by simp
    then show ?thesis using pre[of f3] i3 False by simp
  qed
qed

lemma mapRow_Some:
  assumes "mapRow row0 = Some sp"
  shows "\<exists>row. 4 \<le> length row0 \<and> row = row0 @ replicate (5 - length row0) [] \<and>
           trim (row ! 0) \<noteq> [] \<and> trim (row ! 1) \<noteq> [] \<and> trim (row ! 3) \<noteq> [] \<and>
           name sp = trim (row ! 0) \<and> title sp = trim (row ! 1) \<and> company sp = trim (row ! 2) \<and>
           image_url sp = (if includes_str (trim (row ! 3)) ''drive.google.com''
                           then convertGoogleDriveUrl (trim (row ! 3)) Uc else trim (row ! 3)) \<and>
           linkedin sp = (if trim (row ! 4) = [] then None else Some (trim (row ! 4)))"
proof -
  have len: "4 \<le> length row0"
  proof (rule ccontr)
    assume "\<not> 4 \<le> length row0"
    then have "mapRow row0 = None" by (simp add: mapRow_def)
    with assms show False by simp
  qed
  let ?row = "row0 @ replicate (5 - length row0) []"
  have req: "\<not> (trim (?row ! 0) = [] \<or> trim (?row ! 1) = [] \<or> trim (?row ! 3) = [])"
  proof
    assume "trim (?row ! 0) = [] \<or> trim (?row ! 1) = [] \<or> trim (?row ! 3) = []"
    then have "mapRow row0 = None" using len unfolding mapRow_def Let_def by simp
    with assms show False by simp
  qed
  have "mapRow row0 = Some \<lparr>name = trim (?row ! 0), title = trim (?row ! 1), company = trim (?row ! 2),
          image_url = (if includes_str (trim (?row ! 3)) ''drive.google.com''
                       then convertGoogleDriveUrl (trim (?row ! 3)) Uc else trim (?row ! 3)),
          linkedin = (if trim (?row ! 4) = [] then None else Some (trim (?row ! 4)))\<rparr>"
    using len req unfolding mapRow_def Let_def by simp
  with assms have "sp = \<lparr>name = trim (?row ! 0), title = trim (?row ! 1), company = trim (?row ! 2),
          image_url = (if includes_str (trim (?row ! 3)) ''drive.google.com''
                       then convertGoogleDriveUrl (trim (?row ! 3)) Uc else trim (?row ! 3)),
          linkedin = (if trim (?row ! 4) = [] then None else Some (trim (?row ! 4)))\<rparr>"
    by simp
  then show ?thesis using len req by simp
qed

text \<open>
  Claim C7. A record that the mapper returns for a row has a name, a title and an image
  that are not empty and neither begin nor end with white space (the mapper trims them,
  and a converted Drive link is a fixed prefix followed by a non-empty identifier). The
  company may be empty and the link absent; a link that is present is not empty.
\<close>

theorem mapRow_required_fields:
  assumes "mapRow row = Some sp"
  shows "name sp \<noteq> [] \<and> \<not> is_ws (hd (name sp)) \<and> \<not> is_ws (last (name sp)) \<and>
         title sp \<noteq> [] \<and> \<not> is_ws (hd (title sp)) \<and> \<not> is_ws (last (title sp)) \<and>
         image_url sp \<noteq> [] \<and> \<not> is_ws (hd (image_url sp)) \<and> \<not> is_ws (last (image_url sp)) \<and>
         linkedin sp \<noteq> Some []"
proof -
  from mapRow_Some[OF assms] obtain r where r:
    "trim (r ! 0) \<noteq> []" "trim (r ! 1) \<noteq> []" "trim (r ! 3) \<noteq> []"
    "name sp = trim (r ! 0)" "title sp = trim (r ! 1)"
    "image_url sp = (if includes_str (trim (r ! 3)) ''drive.google.com''
                     then convertGoogleDriveUrl (trim (r ! 3)) Uc else trim (r ! 3))"
    "linkedin sp = (if trim (r ! 4) = [] then None else Some (trim (r ! 4)))"
    by blast
  have n: "name sp \<noteq> [] \<and> \<not> is_ws (hd (name sp)) \<and> \<not> is_ws (last (name sp))"
    using r(1,4) trim_ends[of "r ! 0"] by simp
  have t: "title sp \<noteq> [] \<and> \<not> is_ws (hd (title sp)) \<and> \<not> is_ws (last (title sp))"
    using r(2,5) trim_ends[of "r ! 1"] by simp
  have i0: "trim (r ! 3) \<noteq> [] \<and> \<not> is_ws (hd (trim (r ! 3))) \<and> \<not> is_ws (last (trim (r ! 3)))"
    using r(3) trim_ends[of "r ! 3"] by simp
  have i: "image_url sp \<noteq> [] \<and> \<not> is_ws (hd (image_url sp)) \<and> \<not> is_ws (last (image_url sp))"
  proof (cases "includes_str (trim (r ! 3)) ''drive.google.com''")
    case True
    then have "image_url sp = convertGoogleDriveUrl (trim (r ! 3)) Uc" using r(6) by simp
    then show ?thesis using convertGoogleDriveUrl_Uc_ends[of "trim (r ! 3)"] i0 by simp
  next
    case False
    then have "image_url sp = trim (r ! 3)" using r(6) by simp
    then show ?thesis using i0 by simp
  qed
  have l: "linkedin sp \<noteq> Some []" using r(7) by simp
  show ?thesis using n t i l by blast
qed

theorem mapRow_required_fields_witness:
  "mapRow [''Jane'', ''CEO'', [], ''img.png''] =
     Some \<lparr>name = ''Jane'', title = ''CEO'', company = [], image_url = ''img.png'', linkedin = None\<rparr> \<and>
   mapRow [''Jane'', [], ''Acme'', ''img.png'', ''x''] = None \<and>
   name \<lparr>name = ''Jane'', title = ''CEO'', company = [], image_url = ''img.png'', linkedin = None\<rparr> \<noteq> []"
proof -
  have m: "mapRow [''Jane'', ''CEO'', [], ''img.png''] =
     Some \<lparr>name = ''Jane'', title = ''CEO'', company = [], image_url = ''img.png'', linkedin = None\<rparr>"
    by code_simp
  have z: "mapRow [''Jane'', [], ''Acme'', ''img.png'', ''x''] = None" by code_simp
  show ?thesis using mapRow_required_fields[OF m] m z by blast
qed

lemma mapRow_short: "length row < 4 \<Longrightarrow> mapRow row = None"
  by (simp add: mapRow_def)

lemma mapRows_all_dropped:
  "\<forall>r \<in> set (drop 1 rows). mapRow r = None \<Longrightarrow> mapRows rows = []"
  by (simp add: mapRows_def map_filter_def filter_empty_conv)

lemma fallbackSpeakers_length: "length fallbackSpeakers = 17"
  by (simp add: fallbackSpeakers_def)

lemma fallbackSpeakers_not_Nil: "fallbackSpeakers \<noteq> []"
  using fallbackSpeakers_length by auto

text \<open>
  Claim C5. A row with fewer than four cells is rejected by the mapper, and the batch goes
  on: with or without such a row the other rows give the same records. When the cache
  check gives nothing, the text is fetched, and every data row is rejected, the function
  resolves to the static fallback set, which has seventeen records.
\<close>

theorem short_rows_dropped_and_fallback:
  "(length row < 4 \<longrightarrow>
      mapRow row = None \<and>
      mapRows (header # before @ [row] @ after) = mapRows (header # before @ after)) \<and>
   (check_cache e forceRefresh now_read st = (None, st1) \<and> fetch_csv net = Inr csvText \<and>
    (\<forall>r \<in> set (drop 1 (parseCSVData csvText)). mapRow r = None) \<longrightarrow>
      fetchSpeakersFromGoogleSheets e forceRefresh now_read now_write net st
        = Inr (fallbackSpeakers, st1)) \<and>
   fallbackSpeakers \<noteq> []"
proof -
  have a: "mapRow row = None \<and>
      mapRows (header # before @ [row] @ after) = mapRows (header # before @ after)"
    if "length row < 4"
    using mapRow_short[OF that] by (simp add: mapRows_def map_filter_def)
  have b: "fetchSpeakersFromGoogleSheets e forceRefresh now_read now_write net st
        = Inr (fallbackSpeakers, st1)"
    if h: "check_cache e forceRefresh now_read st = (None, st1)" "fetch_csv net = Inr csvText"
      "\<forall>r \<in> set (drop 1 (parseCSVData csvText)). mapRow r = None"
  proof -
    have "process_csv e now_write csvText st1 = (fallbackSpeakers, st1)"
      using mapRows_all_dropped[OF h(3)] by (simp add: process_csv_def Let_def)
    then show ?thesis using h(1,2) by (simp add: fetchSpeakersFromGoogleSheets_def)
  qed
  show ?thesis using a b fallbackSpeakers_not_Nil by blast
qed

theorem short_rows_dropped_and_fallback_witness:
  "length [''Jane'', ''CEO'', ''Acme''] < 4 \<and>
   fetchSpeakersFromGoogleSheets
     \<lparr>window_defined = True, getItem_throws = False, setItem_throws = False, removeItem_throws = False\<rparr>
     True 0 0
     \<lparr>primary = Responds True (Inr ''name,title,company,image\<newline>Jane,CEO,Acme\<newline>''),
      secondary = Rejects NetworkError\<rparr>
     None = Inr (fallbackSpeakers, None) \<and>
   mapRows [[''h''], [''Jane'', ''CEO'', ''Acme'']] = mapRows [[''h'']]"
proof -
  let ?e = "\<lparr>window_defined = True, getItem_throws = False, setItem_throws = False,
              removeItem_throws = False\<rparr>"
  let ?csv = "''name,title,company,image\<newline>Jane,CEO,Acme\<newline>''"
  let ?net = "\<lparr>primary = Responds True (Inr ?csv), secondary = Rejects NetworkError\<rparr>"
  have s: "length [''Jane'', ''CEO'', ''Acme''] < 4" by simp
  have c: "check_cache ?e True 0 None = (None, None)"
    by (simp add: check_cache_def removeItem_def)
  have f: "fetch_csv ?net = Inr ?csv" by (simp add: fetch_csv_def)
  have p: "parseCSVData ?csv = [[''name'', ''title'', ''company'', ''image''], [''Jane'', ''CEO'', ''Acme''], [[]]]"
    by code_simp
  have d: "\<forall>r \<in> set (drop 1 (parseCSVData ?csv)). mapRow r = None"
    unfolding p by (simp add: mapRow_def)
  note t = short_rows_dropped_and_fallback[of "[''Jane'', ''CEO'', ''Acme'']" "[''h'']" "[]" "[]"
      ?e True 0 None None ?net ?csv 0]
  have 1: "fetchSpeakersFromGoogleSheets ?e True 0 0 ?net None = Inr (fallbackSpeakers, None)"
    using t c f d by blast
  have 2: "mapRows ([''h''] # [] @ [[''Jane'', ''CEO'', ''Acme'']] @ []) = mapRows ([''h''] # [] @ [])"
    using t s by blast
  show ?thesis using s 1 2 by simp
qed

section \<open>The cache slot\<close>

lemma CACHE_DURATION_ms: "CACHE_DURATION = 300000"
  by (simp add: CACHE_DURATION_def)

lemma getCachedData_after_write:
  assumes "window_defined e" "\<not> getItem_throws e" "\<not> setItem_throws e"
  shows "setCachedData e now_write d st = Some (Json \<lparr>data = d, timestamp = now_write\<rparr>)"
    and "now_read - now_write < CACHE_DURATION \<Longrightarrow>
         getCachedData e now_read (setCachedData e now_write d st)
           = (Some d, setCachedData e now_write d st)"
    and "\<not> now_read - now_write < CACHE_DURATION \<Longrightarrow>
         fst (getCachedData e now_read (setCachedData e now_write d st)) = None"
proof -
  show w: "setCachedData e now_write d st = Some (Json \<lparr>data = d, timestamp = now_write\<rparr>)"
    using assms by (simp add: setCachedData_def setItem_def)
  show "now_read - now_write < CACHE_DURATION \<Longrightarrow>
         getCachedData e now_read (setCachedData e now_write d st)
           = (Some d, setCachedData e now_write d st)"
    unfolding w using assms
    by (simp add: getCachedData_def getCachedData_try_def getItem_def JSON_parse_def)
  show "\<not> now_read - now_write < CACHE_DURATION \<Longrightarrow>
         fst (getCachedData e now_read (setCachedData e now_write d st)) = None"
    unfolding w using assms
    by (simp add: getCachedData_def getCachedData_try_def getItem_def JSON_parse_def removeItem_def)
qed

text \<open>
  Claim C3. Where \<open>localStorage\<close> is available (a window, and \<open>getItem\<close> and \<open>setItem\<close>
  that do not throw), \<open>getCachedData\<close> after \<open>setCachedData\<close> returns exactly the written
  records while the time elapsed between the write and the read is below the freshness
  window of 300000 ms, and then \<open>fetchSpeakersFromGoogleSheets\<close> (without forced refresh)
  resolves to these records whatever the network would answer; once the window has
  elapsed, \<open>getCachedData\<close> returns \<open>null\<close>.
\<close>

theorem cache_write_then_read:
  assumes "window_defined e" and "\<not> getItem_throws e" and "\<not> setItem_throws e"
  shows "CACHE_DURATION = 5 * 60 * 1000 \<and>
         (now_read - now_write < CACHE_DURATION \<longrightarrow>
            fst (getCachedData e now_read (setCachedData e now_write d st)) = Some d \<and>
            (\<forall>net now_write2.
               fetchSpeakersFromGoogleSheets e False now_read now_write2 net
                   (setCachedData e now_write d st)
                 = Inr (d, setCachedData e now_write d st))) \<and>
         (CACHE_DURATION \<le> now_read - now_write \<longrightarrow>
            fst (getCachedData e now_read (setCachedData e now_write d st)) = None)"
proof -
  note g = getCachedData_after_write[OF assms]
  have a: "fst (getCachedData e now_read (setCachedData e now_write d st)) = Some d \<and>
            (\<forall>net now_write2.
               fetchSpeakersFromGoogleSheets e False now_read now_write2 net
                   (setCachedData e now_write d st)
                 = Inr (d, setCachedData e now_write d st))"
    if "now_read - now_write < CACHE_DURATION"
    using g(2)[OF that] by (simp add: fetchSpeakersFromGoogleSheets_def check_cache_def)
  have b: "fst (getCachedData e now_read (setCachedData e now_write d st)) = None"
    if "CACHE_DURATION \<le> now_read - now_write"
    using g(3) that by simp
  show ?thesis using a b by (simp add: CACHE_DURATION_def)
qed

theorem cache_write_then_read_witness:
  "fst (getCachedData
         \<lparr>window_defined = True, getItem_throws = False, setItem_throws = False, removeItem_throws = False\<rparr>
         300999
         (setCachedData
            \<lparr>window_defined = True, getItem_throws = False, setItem_throws = False, removeItem_throws = False\<rparr>
            1000 [\<lparr>name = ''Jane'', title = ''CEO'', company = [], image_url = ''img.png'', linkedin = None\<rparr>] None))
     = Some [\<lparr>name = ''Jane'', title = ''CEO'', company = [], image_url = ''img.png'', linkedin = None\<rparr>] \<and>
   fst (getCachedData
         \<lparr>window_defined = True, getItem_throws = False, setItem_throws = False, removeItem_throws = False\<rparr>
         301000
         (setCachedData
            \<lparr>window_defined = True, getItem_throws = False, setItem_throws = False, removeItem_throws = False\<rparr>
            1000 [\<lparr>name = ''Jane'', title = ''CEO'', company = [], image_url = ''img.png'', linkedin = None\<rparr>] None))
     = None"
proof -
  let ?e = "\<lparr>window_defined = True, getItem_throws = False, setItem_throws = False,
              removeItem_throws = False\<rparr>"
  let ?d = "[\<lparr>name = ''Jane'', title = ''CEO'', company = [], image_url = ''img.png'', linkedin = None\<rparr>]"
  have w: "window_defined ?e" and g: "\<not> getItem_throws ?e" and s: "\<not> setItem_throws ?e" by simp_all
  have 1: "(300999::int) - 1000 < CACHE_DURATION" by (simp add: CACHE_DURATION_def)
  have 2: "CACHE_DURATION \<le> (301000::int) - 1000" by (simp add: CACHE_DURATION_def)
  from cache_write_then_read[OF w g s, of 300999 1000 ?d None] 1
  have a: "fst (getCachedData ?e 300999 (setCachedData ?e 1000 ?d None)) = Some ?d" by blast
  from cache_write_then_read[OF w g s, of 301000 1000 ?d None] 2
  have b: "fst (getCachedData ?e 301000 (setCachedData ?e 1000 ?d None)) = None" by blast
  show ?thesis using a b by simp
qed

section \<open>The failure path\<close>

lemma expired_cache_readable:
  "window_defined e \<Longrightarrow> \<not> getItem_throws e \<Longrightarrow> expired_cache e (Some (Json entry)) = Some (data entry)"
  by (simp add: expired_cache_def getItem_def JSON_parse_def)

lemma expired_cache_unreadable:
  "\<not> (window_defined e \<and> \<not> getItem_throws e \<and> (\<exists>entry. st = Some (Json entry))) \<Longrightarrow>
   expired_cache e st = None"
  by (cases st; cases "the st") (auto simp: expired_cache_def getItem_def JSON_parse_def)

text \<open>
  With a storage whose operations all work, an entry that is older than the freshness
  window when the function is called is removed by the cache check, before the fetch:
  if the fetch then fails, the \<open>catch\<close> block finds the slot empty.
\<close>

lemma expired_entry_is_removed_before_the_fetch:
  assumes "window_defined e" "\<not> getItem_throws e" "\<not> removeItem_throws e"
    and "\<not> now_read - timestamp entry < CACHE_DURATION"
    and "fetch_csv net = Inl err"
  shows "fetchSpeakersFromGoogleSheets e False now_read now_write net (Some (Json entry))
           = Inr (fallbackSpeakers, None)"
  using assms
  by (simp add: fetchSpeakersFromGoogleSheets_def check_cache_def getCachedData_def
      getCachedData_try_def getItem_def JSON_parse_def removeItem_def on_failure_def expired_cache_def)

text \<open>
  The \<open>catch\<close> block on its own reads the slot as the cache check left it, without a
  freshness test: an entry that is still there and can be read gives the result, and the
  static fallback set is the result otherwise.
\<close>

lemma catch_block_reads_the_slot_left_by_the_cache_check:
  assumes "check_cache e forceRefresh now_read st = (None, st1)" and "fetch_csv net = Inl err"
  shows "(window_defined e \<and> \<not> getItem_throws e \<and> st1 = Some (Json entry) \<longrightarrow>
            fetchSpeakersFromGoogleSheets e forceRefresh now_read now_write net st
              = Inr (data entry, st1)) \<and>
         (\<not> (window_defined e \<and> \<not> getItem_throws e \<and> (\<exists>entry'. st1 = Some (Json entry'))) \<longrightarrow>
            fetchSpeakersFromGoogleSheets e forceRefresh now_read now_write net st
              = Inr (fallbackSpeakers, st1))"
proof -
  have f: "fetchSpeakersFromGoogleSheets e forceRefresh now_read now_write net st
             = Inr (on_failure e st1, st1)"
    using assms by (simp add: fetchSpeakersFromGoogleSheets_def)
  have a: "on_failure e st1 = data entry"
    if "window_defined e" "\<not> getItem_throws e" "st1 = Some (Json entry)"
    using that expired_cache_readable[of e entry] by (simp add: on_failure_def)
  have b: "on_failure e st1 = fallbackSpeakers"
    if "\<not> (window_defined e \<and> \<not> getItem_throws e \<and> (\<exists>entry'. st1 = Some (Json entry')))"
    using expired_cache_unreadable[OF that] by (simp add: on_failure_def)
  show ?thesis using f a b by metis
qed

text \<open>
  But the cache check leaves no readable entry behind unless \<open>removeItem\<close> throws: it
  returns a fresh entry (and then nothing is fetched), and it removes an expired or
  unreadable one, as the forced refresh removes any.
\<close>

lemma entry_survives_the_cache_check_only_if_removeItem_throws:
  assumes "check_cache e forceRefresh now_read st = (None, Some (Json entry))"
    and "window_defined e" and "\<not> getItem_throws e"
  shows "removeItem_throws e"
proof (rule ccontr)
  assume r: "\<not> removeItem_throws e"
  have "snd (check_cache e forceRefresh now_read st) = None
        \<or> fst (check_cache e forceRefresh now_read st) \<noteq> None"
  proof (cases st)
    case None
    then show ?thesis using assms(2,3)
      by (simp add: check_cache_def getCachedData_def getCachedData_try_def getItem_def removeItem_def)
  next
    case (Some raw)
    then show ?thesis using assms(2,3) r
      by (cases raw)
        (simp_all add: check_cache_def getCachedData_def getCachedData_try_def getItem_def
          JSON_parse_def removeItem_def)
  qed
  then show False using assms(1) by simp
qed

text \<open>
  Claim C6 says that after a failed fetch the records of a cache entry are returned in
  preference to the static fallback set, also when the entry is older than the freshness
  window, and the comment in the \<open>catch\<close> block says the same (cached data are returned
  even if expired). The code does not do that. With a working storage that holds an entry
  written 1000000 ms earlier, and a fetch that is rejected, the cache check removes the
  entry before the fetch, and the function resolves to the static fallback set, which is
  not the list of records of the entry; the slot is left empty.
\<close>

theorem expired_entry_is_lost_when_the_fetch_fails:
  "fetchSpeakersFromGoogleSheets
     \<lparr>window_defined = True, getItem_throws = False, setItem_throws = False, removeItem_throws = False\<rparr>
     False 1000000 1000000
     \<lparr>primary = Rejects NetworkError, secondary = Rejects NetworkError\<rparr>
     (Some (Json \<lparr>data = [\<lparr>name = ''Jane'', title = ''CEO'', company = [], image_url = ''img.png'',
                             linkedin = None\<rparr>], timestamp = 0\<rparr>))
   = Inr (fallbackSpeakers, None) \<and>
   fallbackSpeakers \<noteq> [\<lparr>name = ''Jane'', title = ''CEO'', company = [], image_url = ''img.png'',
                          linkedin = None\<rparr>] \<and>
   expired_cache
     \<lparr>window_defined = True, getItem_throws = False, setItem_throws = False, removeItem_throws = False\<rparr>
     (Some (Json \<lparr>data = [\<lparr>name = ''Jane'', title = ''CEO'', company = [], image_url = ''img.png'',
                             linkedin = None\<rparr>], timestamp = 0\<rparr>))
   = Some [\<lparr>name = ''Jane'', title = ''CEO'', company = [], image_url = ''img.png'', linkedin = None\<rparr>]"
proof -
  let ?e = "\<lparr>window_defined = True, getItem_throws = False, setItem_throws = False,
              removeItem_throws = False\<rparr>"
  let ?jane = "\<lparr>name = ''Jane'', title = ''CEO'', company = [], image_url = ''img.png'',
                 linkedin = None\<rparr>"
  let ?entry = "\<lparr>data = [?jane], timestamp = 0\<rparr>"
  let ?net = "\<lparr>primary = Rejects NetworkError, secondary = Rejects NetworkError\<rparr>"
  have f: "fetch_csv ?net = Inl NetworkError" by (simp add: fetch_csv_def)
  have x: "\<not> (1000000::int) - timestamp ?entry < CACHE_DURATION" by (simp add: CACHE_DURATION_def)
  have 1: "fetchSpeakersFromGoogleSheets ?e False 1000000 1000000 ?net (Some (Json ?entry))
             = Inr (fallbackSpeakers, None)"
    using expired_entry_is_removed_before_the_fetch[of ?e 1000000 ?entry ?net NetworkError 1000000] f x
    by simp
  have 2: "fallbackSpeakers \<noteq> [?jane]"
  proof
    assume "fallbackSpeakers = [?jane]"
    then have "length fallbackSpeakers = length [?jane]" by (rule arg_cong)
    then show False by (simp add: fallbackSpeakers_length)
  qed
  have 3: "expired_cache ?e (Some (Json ?entry)) = Some [?jane]"
    by (simp add: expired_cache_def getItem_def JSON_parse_def)
  show ?thesis using 1 2 3 by simp
qed

section \<open>The fetch never throws and never resolves to an empty list\<close>

lemma check_cache_cases:
  assumes "written_by_setCachedData st" and "check_cache e forceRefresh now st = (c, st1)"
  shows "(st1 = st \<or> st1 = None) \<and>
         (c = None \<or> (\<exists>entry. st = Some (Json entry) \<and> c = Some (data entry)))"
proof (cases st)
  case None
  then show ?thesis using assms(2)
    by (auto simp: check_cache_def getCachedData_def getCachedData_try_def getItem_def
        removeItem_def split: if_splits)
next
  case (Some raw)
  then obtain entry where raw: "raw = Json entry"
    using assms(1) by (cases raw) (simp_all add: written_by_setCachedData_def)
  show ?thesis using assms(2) unfolding Some raw
    by (auto simp: check_cache_def getCachedData_def getCachedData_try_def getItem_def
        JSON_parse_def removeItem_def split: if_splits)
qed

lemma written_by_setCachedData_write:
  "written_by_setCachedData st \<Longrightarrow> d \<noteq> [] \<Longrightarrow> written_by_setCachedData (setCachedData e now d st)"
  by (simp add: setCachedData_def setItem_def written_by_setCachedData_def)

lemma process_csv_cases:
  assumes "written_by_setCachedData st" and "process_csv e now csvText st = (speakers, st')"
  shows "speakers \<noteq> [] \<and> written_by_setCachedData st' \<and>
         (speakers = fallbackSpeakers \<or> speakers = mapRows (parseCSVData csvText))"
proof (cases "trim csvText = [] \<or> length (parseCSVData csvText) \<le> 1
              \<or> mapRows (parseCSVData csvText) = []")
  case True
  then have "process_csv e now csvText st = (fallbackSpeakers, st)"
    by (auto simp: process_csv_def Let_def)
  then show ?thesis using assms fallbackSpeakers_not_Nil by simp
next
  case False
  then have "process_csv e now csvText st =
               (mapRows (parseCSVData csvText), setCachedData e now (mapRows (parseCSVData csvText)) st)"
    by (simp add: process_csv_def Let_def)
  then show ?thesis using assms False written_by_setCachedData_write by auto
qed

lemma on_failure_cases:
  "on_failure e st = fallbackSpeakers \<or> (\<exists>entry. st = Some (Json entry) \<and> on_failure e st = data entry)"
proof (cases "window_defined e \<and> \<not> getItem_throws e \<and> (\<exists>entry. st = Some (Json entry))")
  case True
  then show ?thesis using expired_cache_readable[of e] by (auto simp: on_failure_def)
next
  case False
  then show ?thesis using expired_cache_unreadable[of e st] by (simp add: on_failure_def)
qed

text \<open>
  Claim C1. Let the slot be as \<open>setCachedData\<close> leaves it (absent, or an entry with at least
  one record). Then for every environment, forced or not, at any times and for every
  outcome of the two fetches, \<open>fetchSpeakersFromGoogleSheets\<close> throws nothing to its caller
  and resolves to a list that is not empty: the static fallback set, the records of the
  entry in the slot, or the records mapped from the fetched text. The slot is again as
  \<open>setCachedData\<close> leaves it, so the same holds for the next call.
\<close>

theorem fetchSpeakers_never_throws_and_is_never_empty:
  assumes "written_by_setCachedData st"
  shows "\<exists>speakers st'.
           fetchSpeakersFromGoogleSheets e forceRefresh now_read now_write net st = Inr (speakers, st') \<and>
           speakers \<noteq> [] \<and> written_by_setCachedData st' \<and>
           (speakers = fallbackSpeakers \<or>
            (\<exists>entry. st = Some (Json entry) \<and> speakers = data entry) \<or>
            (\<exists>csvText. fetch_csv net = Inr csvText \<and> speakers = mapRows (parseCSVData csvText)))"
proof -
  obtain c st1 where cc: "check_cache e forceRefresh now_read st = (c, st1)"
    by (cases "check_cache e forceRefresh now_read st")
  note k = check_cache_cases[OF assms cc]
  have w1: "written_by_setCachedData st1"
    using k assms by (auto simp: written_by_setCachedData_def)
  have nonempty: "data entry \<noteq> []" if "st = Some (Json entry)" for entry
    using assms that by (simp add: written_by_setCachedData_def)
  show ?thesis
  proof (cases c)
    case (Some d)
    then have "fetchSpeakersFromGoogleSheets e forceRefresh now_read now_write net st = Inr (d, st1)"
      using cc by (simp add: fetchSpeakersFromGoogleSheets_def)
    moreover obtain entry where "st = Some (Json entry)" "d = data entry" using k Some by auto
    ultimately show ?thesis using w1 nonempty by blast
  next
    case None
    show ?thesis
    proof (cases "fetch_csv net")
      case (Inr csvText)
      obtain speakers st' where p: "process_csv e now_write csvText st1 = (speakers, st')"
        by (cases "process_csv e now_write csvText st1")
      have "fetchSpeakersFromGoogleSheets e forceRefresh now_read now_write net st = Inr (speakers, st')"
        using cc None Inr p by (simp add: fetchSpeakersFromGoogleSheets_def)
      then show ?thesis using process_csv_cases[OF w1 p] Inr by blast
    next
      case (Inl err)
      have f: "fetchSpeakersFromGoogleSheets e forceRefresh now_read now_write net st
                 = Inr (on_failure e st1, st1)"
        using cc None Inl by (simp add: fetchSpeakersFromGoogleSheets_def)
      from on_failure_cases[of e st1] show ?thesis
      proof
        assume "on_failure e st1 = fallbackSpeakers"
        then show ?thesis using f w1 fallbackSpeakers_not_Nil by simp
      next
        assume "\<exists>entry. st1 = Some (Json entry) \<and> on_failure e st1 = data entry"
        then obtain entry where en: "st1 = Some (Json entry)" "on_failure e st1 = data entry" by blast
        then have "st = Some (Json entry)" using k by auto
        then show ?thesis using f w1 en nonempty by auto
      qed
    qed
  qed
qed

theorem fetchSpeakers_never_throws_and_is_never_empty_witness:
  "written_by_setCachedData None \<and>
   (\<exists>speakers st'.
      fetchSpeakersFromGoogleSheets
        \<lparr>window_defined = True, getItem_throws = False, setItem_throws = False, removeItem_throws = False\<rparr>
        False 1000 1000
        \<lparr>primary = Rejects AbortError, secondary = Rejects AbortError\<rparr> None = Inr (speakers, st') \<and>
      speakers \<noteq> [])"
proof -
  have w: "written_by_setCachedData None" by (simp add: written_by_setCachedData_def)
  show ?thesis
    using fetchSpeakers_never_throws_and_is_never_empty[OF w,
        of "\<lparr>window_defined = True, getItem_throws = False, setItem_throws = False,
             removeItem_throws = False\<rparr>" False 1000 1000
           "\<lparr>primary = Rejects AbortError, secondary = Rejects AbortError\<rparr>"] w
    by blast
qed

section \<open>Parsing, serializing and parsing again\<close>

lemma dropWhile_hd_keep: "xs \<noteq> [] \<Longrightarrow> \<not> P (hd xs) \<Longrightarrow> dropWhile P xs = xs"
  by (cases xs) simp_all

lemma trim_fixed:
  assumes "s = [] \<or> (\<not> is_ws (hd s) \<and> \<not> is_ws (last s))"
  shows "trim s = s"
proof (cases s)
  case Nil
  then show ?thesis by (simp add: trim_def)
next
  case (Cons a s')
  then have h: "\<not> is_ws a" and l: "\<not> is_ws (last s)" using assms by auto
  have 1: "dropWhile is_ws s = s" using Cons h by simp
  have "rev s \<noteq> []" using Cons by simp
  moreover have "hd (rev s) = last s" using Cons by (simp add: hd_rev)
  ultimately have 2: "dropWhile is_ws (rev s) = rev s" using l by (simp add: dropWhile_hd_keep)
  show ?thesis by (simp add: trim_def 1 2)
qed

lemma trim_trim: "trim (trim s) = trim s"
  using trim_ends[of s] by (intro trim_fixed) blast

lemma set_trim: "set (trim s) \<subseteq> set s"
proof -
  have "set (trim s) \<subseteq> set (dropWhile is_ws s)"
    unfolding trim_def using set_dropWhileD[of _ is_ws "rev (dropWhile is_ws s)"] by auto
  then show ?thesis using set_dropWhileD[of _ is_ws s] by blast
qed

lemma LF_replace_lf_run: "LF \<notin> set (replace_lf_run s)"
  by (induction s rule: replace_lf_run.induct) auto

lemma set_replace_lf_run: "set (replace_lf_run s) \<subseteq> insert SPACE (set s)"
proof (induction s rule: replace_lf_run.induct)
  case 1
  then show ?case by simp
next
  case (2 c rest)
  show ?case
  proof (cases "c = LF")
    case True
    then have "set (replace_lf_run (dropWhile (\<lambda>d. d = LF) rest)) \<subseteq> insert SPACE (set rest)"
      using 2(1) set_dropWhileD[of _ "\<lambda>d. d = LF" rest] by blast
    then show ?thesis using True by auto
  next
    case False
    then show ?thesis using 2(2) by auto
  qed
qed

lemma CR_replace_cr: "CR \<notin> set (replace_cr s)"
  by (auto simp: replace_cr_def)

lemma clean_cell_clean_field: "clean_cell (clean_field x)"
proof -
  obtain y where y: "clean_field x = trim (replace_lf_run (replace_cr y))"
    by (simp add: clean_field_def Let_def)
  have "CR \<notin> set (replace_lf_run (replace_cr y))"
    using set_replace_lf_run[of "replace_cr y"] CR_replace_cr[of y] by auto
  moreover have "LF \<notin> set (replace_lf_run (replace_cr y))" by (rule LF_replace_lf_run)
  ultimately have "CR \<notin> set (clean_field x)" "LF \<notin> set (clean_field x)"
    unfolding y using set_trim[of "replace_lf_run (replace_cr y)"] by auto
  moreover have "trim (clean_field x) = clean_field x" unfolding y by (rule trim_trim)
  ultimately show ?thesis by (simp add: clean_cell_def)
qed

lemma parseCSVLine_clean:
  "parseCSVLine line \<noteq> [] \<and> (\<forall>cell \<in> set (parseCSVLine line). clean_cell cell)"
  by (cases "scan [] [] False line") (auto simp: parseCSVLine_def clean_cell_clean_field)

lemma parseCSVData_clean:
  "\<forall>row \<in> set (parseCSVData t). row \<noteq> [] \<and> (\<forall>cell \<in> set row. clean_cell cell)"
proof -
  have "\<And>ls. \<forall>row \<in> set (map parseCSVLine ls). row \<noteq> [] \<and> (\<forall>cell \<in> set row. clean_cell cell)"
    using parseCSVLine_clean by auto
  then show ?thesis
    by (cases "join_lines [] [] (split_lf t)") (simp add: parseCSVData_def)
qed

lemma scan_plain_run:
  "\<forall>x \<in> set c. x \<noteq> DQ \<and> x \<noteq> COMMA \<and> x \<noteq> CR \<and> x \<noteq> LF \<Longrightarrow>
   scan res cur False (c @ rest) = scan res (cur @ c) False rest"
  by (induction c arbitrary: cur) (simp_all add: scan_rules)

lemma scan_quoted_run:
  "rest = [] \<or> hd rest \<noteq> DQ \<Longrightarrow>
   scan res cur True (double_quotes c @ DQ # rest) = scan res (cur @ c) False rest"
proof (induction c arbitrary: cur)
  case Nil
  then show ?case by (cases rest) (simp_all add: double_quotes_def scan_rules)
next
  case (Cons x c)
  have d: "double_quotes (x # c) = (if x = DQ then [DQ, DQ] else [x]) @ double_quotes c"
    by (simp add: double_quotes_def)
  show ?case
  proof (cases "x = DQ")
    case True
    then show ?thesis unfolding d using Cons.IH[OF Cons.prems, of "cur @ [DQ]"] by (simp add: scan_rules)
  next
    case False
    then show ?thesis unfolding d using Cons.IH[OF Cons.prems, of "cur @ [x]"] by (simp add: scan_rules)
  qed
qed

lemma scan_serialize_cell:
  assumes "clean_cell c" and "rest = [] \<or> hd rest \<noteq> DQ"
  shows "scan res [] False (serialize_cell c @ rest) = scan res c False rest"
proof (cases "COMMA \<in> set c \<or> DQ \<in> set c")
  case True
  then have "serialize_cell c @ rest = DQ # double_quotes c @ DQ # rest"
    by (simp add: serialize_cell_def)
  then show ?thesis using scan_quoted_run[OF assms(2), of res "[]" c] by (simp add: scan_rules)
next
  case False
  then have p: "\<forall>x \<in> set c. x \<noteq> DQ \<and> x \<noteq> COMMA \<and> x \<noteq> CR \<and> x \<noteq> LF"
    using assms(1) by (auto simp: clean_cell_def)
  have "serialize_cell c = c" using False by (simp add: serialize_cell_def)
  then show ?thesis using scan_plain_run[OF p, of res "[]" rest] by simp
qed

lemma scan_serialize_row:
  "row \<noteq> [] \<Longrightarrow> \<forall>c \<in> set row. clean_cell c \<Longrightarrow>
   scan res [] False (serialize_row row) = (res @ butlast row, last row, False)"
proof (induction row arbitrary: res)
  case Nil
  then show ?case by simp
next
  case (Cons c row)
  have cc: "clean_cell c" using Cons.prems(2) by simp
  show ?case
  proof (cases row)
    case Nil
    have "scan res [] False (serialize_cell c @ []) = scan res c False []"
      by (rule scan_serialize_cell[OF cc]) simp
    then show ?thesis using Nil by (simp add: serialize_row_def)
  next
    case (Cons d row')
    have s: "serialize_row (c # row) = serialize_cell c @ COMMA # serialize_row row"
      using Cons by (simp add: serialize_row_def)
    have "scan res [] False (serialize_cell c @ COMMA # serialize_row row)
            = scan res c False (COMMA # serialize_row row)"
      by (rule scan_serialize_cell[OF cc]) simp
    also have "\<dots> = scan (res @ [trim c]) [] False (serialize_row row)"
      by (simp add: scan_rules)
    also have "\<dots> = ((res @ [trim c]) @ butlast row, last row, False)"
      using Cons.IH[of "res @ [trim c]"] Cons.prems(2) Cons by simp
    finally show ?thesis using s Cons cc by (simp add: clean_cell_def)
  qed
qed

lemma replace_crlf_no_CR: "CR \<notin> set s \<Longrightarrow> replace_crlf s = s"
  by (induction s rule: replace_crlf.induct) auto

lemma replace_lf_run_no_LF: "LF \<notin> set s \<Longrightarrow> replace_lf_run s = s"
  by (induction s rule: replace_lf_run.induct) auto

lemma replace_cr_no_CR: "CR \<notin> set s \<Longrightarrow> replace_cr s = s"
  by (induction s) (auto simp: replace_cr_def)

lemma clean_field_fixed:
  assumes "clean_cell c" and "\<not> quote_wrapped c"
  shows "clean_field c = c" and "clean_field (trim c) = c"
proof -
  have t: "trim c = c" and cr: "CR \<notin> set c" and lf: "LF \<notin> set c"
    using assms(1) by (simp_all add: clean_cell_def)
  have nw: "\<not> (startsWithDQ c \<and> endsWithDQ c)" using assms(2) by (simp add: quote_wrapped_def)
  have "clean_field c = trim (replace_lf_run (replace_cr (replace_crlf c)))"
    unfolding clean_field_def Let_def t using nw by (simp only: if_False)
  then show "clean_field c = c"
    using t cr lf by (simp add: replace_crlf_no_CR replace_cr_no_CR replace_lf_run_no_LF)
  then show "clean_field (trim c) = c" by (simp add: t)
qed

lemma parseCSVLine_serialize_row:
  assumes "row \<noteq> []" and "\<forall>c \<in> set row. clean_cell c \<and> \<not> quote_wrapped c"
  shows "parseCSVLine (serialize_row row) = row"
proof -
  have s: "scan [] [] False (serialize_row row) = ([] @ butlast row, last row, False)"
    using assms by (intro scan_serialize_row) auto
  have "map clean_field (butlast row @ [trim (last row)]) = butlast row @ [last row]"
  proof -
    have "\<forall>c \<in> set (butlast row). clean_field c = c"
      using assms(2) clean_field_fixed(1) by (auto dest: in_set_butlastD)
    then have "map clean_field (butlast row) = butlast row" by (simp add: map_idI)
    moreover have "clean_field (trim (last row)) = last row"
      using assms clean_field_fixed(2)[of "last row"] by simp
    ultimately show ?thesis by simp
  qed
  then show ?thesis using s assms(1) by (simp add: parseCSVLine_def)
qed

lemma split_lf_no_LF: "LF \<notin> set l \<Longrightarrow> split_lf l = [l]"
  by (induction l) auto

lemma split_lf_append_LF: "LF \<notin> set l \<Longrightarrow> split_lf (l @ LF # rest) = l # split_lf rest"
  by (induction l) auto

lemma split_lf_intercalate:
  "ls \<noteq> [] \<Longrightarrow> \<forall>l \<in> set ls. LF \<notin> set l \<Longrightarrow> split_lf (intercalate [LF] ls) = ls"
proof (induction ls)
  case Nil
  then show ?case by simp
next
  case (Cons l ls)
  show ?case
  proof (cases ls)
    case Nil
    then show ?thesis using Cons.prems by (simp add: split_lf_no_LF)
  next
    case (Cons m ms)
    then have "intercalate [LF] (l # ls) = l @ LF # intercalate [LF] ls" by simp
    then show ?thesis using Cons Cons.IH Cons.prems by (simp add: split_lf_append_LF)
  qed
qed

lemma join_lines_even:
  "\<forall>l \<in> set ls. even (quoteCount l) \<Longrightarrow> join_lines acc [] ls = (acc @ ls, [])"
  by (induction ls arbitrary: acc) (simp_all add: Let_def)

lemma set_double_quotes: "set (double_quotes c) = set c"
  by (induction c) (auto simp: double_quotes_def)

lemma quoteCount_double_quotes: "quoteCount (double_quotes c) = 2 * quoteCount c"
  by (induction c) (auto simp: double_quotes_def quoteCount_def)

lemma quoteCount_no_DQ: "DQ \<notin> set c \<Longrightarrow> quoteCount c = 0"
  by (induction c) (auto simp: quoteCount_simps)

lemma serialize_cell_props:
  "even (quoteCount (serialize_cell c))" "LF \<notin> set c \<Longrightarrow> LF \<notin> set (serialize_cell c)"
proof -
  show "even (quoteCount (serialize_cell c))"
  proof (cases "COMMA \<in> set c \<or> DQ \<in> set c")
    case True
    then have "serialize_cell c = [DQ] @ double_quotes c @ [DQ]" by (simp add: serialize_cell_def)
    then show ?thesis by (simp add: quoteCount_simps quoteCount_double_quotes)
  next
    case False
    then have "serialize_cell c = c" "DQ \<notin> set c" by (simp_all add: serialize_cell_def)
    then show ?thesis by (simp add: quoteCount_no_DQ)
  qed
  show "LF \<notin> set c \<Longrightarrow> LF \<notin> set (serialize_cell c)"
    by (simp add: serialize_cell_def set_double_quotes)
qed

lemma serialize_row_props:
  "even (quoteCount (serialize_row row)) \<and>
   ((\<forall>c \<in> set row. LF \<notin> set c) \<longrightarrow> LF \<notin> set (serialize_row row))"
proof (induction row)
  case Nil
  then show ?case by (simp add: serialize_row_def quoteCount_simps)
next
  case (Cons c row)
  show ?case
  proof (cases row)
    case Nil
    then show ?thesis using serialize_cell_props[of c] by (simp add: serialize_row_def)
  next
    case (Cons d row')
    then have "serialize_row (c # row) = serialize_cell c @ COMMA # serialize_row row"
      by (simp add: serialize_row_def)
    then show ?thesis using Cons.IH serialize_cell_props[of c] by (simp add: quoteCount_simps)
  qed
qed

lemma parseCSVData_serializeCSV:
  assumes "grid \<noteq> []"
    and "\<forall>row \<in> set grid. row \<noteq> [] \<and> (\<forall>c \<in> set row. clean_cell c \<and> \<not> quote_wrapped c)"
  shows "parseCSVData (serializeCSV grid) = grid"
proof -
  let ?ls = "map serialize_row grid"
  have nl: "\<forall>l \<in> set ?ls. LF \<notin> set l"
    using assms(2) serialize_row_props by (auto simp: clean_cell_def)
  have ev: "\<forall>l \<in> set ?ls. even (quoteCount l)"
    using serialize_row_props by auto
  have "split_lf (serializeCSV grid) = ?ls"
    unfolding serializeCSV_def using assms(1) nl by (intro split_lf_intercalate) auto
  then have "parseCSVData (serializeCSV grid) = map parseCSVLine ?ls"
    using join_lines_even[OF ev, of "[]"] by (simp add: parseCSVData_def trim_Nil)
  also have "\<dots> = grid"
    using assms(2) parseCSVLine_serialize_row by (simp add: map_idI)
  finally show ?thesis .
qed

text \<open>
  Claim C9, as the code has it. Whatever the text, if no cell of its parse both begins and
  ends with a quote character, then serializing the parse and parsing again gives the same
  grid of cells.
\<close>

theorem reparse_of_serialized_parse:
  assumes "\<forall>row \<in> set (parseCSVData csvText). \<forall>cell \<in> set row. \<not> quote_wrapped cell"
  shows "parseCSVData (serializeCSV (parseCSVData csvText)) = parseCSVData csvText"
  using assms parseCSVData_clean[of csvText] parseCSVData_not_Nil[of csvText]
  by (intro parseCSVData_serializeCSV) auto

theorem reparse_of_serialized_parse_witness:
  \<open>parseCSVData ''h1,h2\<newline>"Jane, A","She said ""hi"""'' = [[''h1'', ''h2''], [''Jane, A'', ''She said "hi"'']] \<and>
   serializeCSV [[''h1'', ''h2''], [''Jane, A'', ''She said "hi"'']] = ''h1,h2\<newline>"Jane, A","She said ""hi"""'' \<and>
   parseCSVData (serializeCSV (parseCSVData ''h1,h2\<newline>"Jane, A","She said ""hi"""''))
     = [[''h1'', ''h2''], [''Jane, A'', ''She said "hi"'']]\<close>
proof -
  let ?t = \<open>''h1,h2\<newline>"Jane, A","She said ""hi"""''\<close>
  let ?g = \<open>[[''h1'', ''h2''], [''Jane, A'', ''She said "hi"'']]\<close>
  have p: "parseCSVData ?t = ?g" by code_simp
  have s: "serializeCSV ?g = ?t" by code_simp
  have h: "\<forall>row \<in> set (parseCSVData ?t). \<forall>cell \<in> set row. \<not> quote_wrapped cell"
    unfolding p by (simp add: quote_wrapped_def startsWithDQ_def)
  have "parseCSVData (serializeCSV (parseCSVData ?t)) = parseCSVData ?t"
    using h by (rule reparse_of_serialized_parse)
  then show ?thesis using p s by simp
qed

text \<open>
  Claim C9 as stated fails. The text of one quoted field whose content is \<open>""a""\<close> (that is,
  five quotes, \<open>a\<close>, five quotes) is well-formed; it parses to the cell \<open>"a"\<close>, since the
  clean-up strips one more pair of quotes from the field \<open>""a""\<close> that the scanner decoded;
  that cell is serialized as \<open>"""a"""\<close>, which parses to the cell \<open>a\<close>.
\<close>

theorem reparse_of_serialized_parse_counterexample:
  \<open>well_formed_csv ''"""""a"""""'' \<and>
   parseCSVData ''"""""a"""""'' = [[''"a"'']] \<and>
   serializeCSV [[''"a"'']] = ''"""a"""'' \<and>
   parseCSVData (serializeCSV (parseCSVData ''"""""a"""""'')) = [[''a'']] \<and>
   parseCSVData (serializeCSV (parseCSVData ''"""""a"""""'')) \<noteq> parseCSVData ''"""""a"""""''\<close>
  by code_simp

section \<open>A quoted field with a comma and a line break\<close>

lemma double_quotes_no_DQ: "DQ \<notin> set s \<Longrightarrow> double_quotes s = s"
  by (induction s) (auto simp: double_quotes_def)

lemma replace_lf_run_one_LF:
  "LF \<notin> set a \<Longrightarrow> LF \<notin> set b \<Longrightarrow> replace_lf_run (a @ LF # b) = a @ SPACE # b"
proof (induction a)
  case Nil
  have "dropWhile (\<lambda>d. d = LF) b = b" using Nil(2) by (cases b) auto
  then show ?case using Nil(2) by (simp add: replace_lf_run_no_LF)
next
  case (Cons x a)
  then show ?case by auto
qed

lemma parseCSVData_one_quoted_field:
  assumes "\<forall>x \<in> set a \<union> set b. x \<noteq> DQ \<and> x \<noteq> CR \<and> x \<noteq> LF"
    and "a \<noteq> []" and "b \<noteq> []" and "\<not> is_ws (hd a)" and "\<not> is_ws (last b)"
  shows "parseCSVData ([DQ] @ a @ [LF] @ b @ [DQ]) = [[a @ [SPACE] @ b]]"
proof -
  let ?x = "a @ LF # b"
  let ?line = "DQ # ?x @ [DQ]"
  have na: "DQ \<notin> set a" "LF \<notin> set a" "CR \<notin> set a" and nb: "DQ \<notin> set b" "LF \<notin> set b" "CR \<notin> set b"
    using assms(1) by auto
  have sp: "split_lf ([DQ] @ a @ [LF] @ b @ [DQ]) = [DQ # a, b @ [DQ]]"
    using split_lf_append_LF[of "DQ # a" "b @ [DQ]"] split_lf_no_LF[of "b @ [DQ]"] na nb by simp
  have qa: "quoteCount (DQ # a) = 1" and qx: "quoteCount ((DQ # a) @ [LF] @ b @ [DQ]) = 2"
    using na nb by (simp_all add: quoteCount_simps quoteCount_no_DQ)
  have jl: "join_lines [] [] [DQ # a, b @ [DQ]] = ([?line], [])"
    using qa qx by (simp add: Let_def)
  have sc: "scan [] [] False ?line = ([], ?x, False)"
  proof -
    have "scan [] [] True (double_quotes ?x @ DQ # []) = scan [] ([] @ ?x) False []"
      by (rule scan_quoted_run) simp
    moreover have "double_quotes ?x = ?x" using na nb by (intro double_quotes_no_DQ) auto
    ultimately show ?thesis by (simp add: scan_rules)
  qed
  have tx: "trim ?x = ?x"
    using assms(2-5) by (intro trim_fixed) (simp add: hd_append)
  have ty: "trim (a @ SPACE # b) = a @ SPACE # b"
    using assms(2-5) by (intro trim_fixed) (simp add: hd_append)
  have nw: "\<not> (startsWithDQ ?x \<and> endsWithDQ ?x)"
    using assms(2) na by (cases a) (auto simp: startsWithDQ_def)
  have "clean_field ?x = trim (replace_lf_run (replace_cr (replace_crlf ?x)))"
    unfolding clean_field_def Let_def tx using nw by (simp only: if_False)
  also have "replace_crlf ?x = ?x" using na nb by (intro replace_crlf_no_CR) auto
  also have "replace_cr ?x = ?x" using na nb by (intro replace_cr_no_CR) auto
  also have "replace_lf_run ?x = a @ SPACE # b" using na nb by (intro replace_lf_run_one_LF)
  finally have cf: "clean_field ?x = a @ SPACE # b" using ty by simp
  have "parseCSVLine ?line = [a @ SPACE # b]"
    using sc tx cf by (simp add: parseCSVLine_def)
  then show ?thesis using sp jl by (simp add: parseCSVData_def trim_Nil)
qed

text \<open>
  Claim C4. A quoted field that holds two parts separated by a line feed (the parts free of
  quotes and line breaks, commas allowed, no white space at the outer ends) is one logical
  line and parses to one cell, the parts joined by a single space. And the row
  \<open>"Jane, A","CEO\<newline>Global Co",img.png\<close> parses to exactly the three cells \<open>Jane, A\<close>,
  \<open>CEO Global Co\<close> and \<open>img.png\<close>, for \<open>parseCSVData\<close> and for \<open>parseCSVLine\<close>.
\<close>

theorem parseCSVData_quoted_multiline_field:
  \<open>((\<forall>x \<in> set a \<union> set b. x \<noteq> DQ \<and> x \<noteq> CR \<and> x \<noteq> LF) \<and>
     a \<noteq> [] \<and> b \<noteq> [] \<and> \<not> is_ws (hd a) \<and> \<not> is_ws (last b) \<longrightarrow>
       parseCSVData ([DQ] @ a @ [LF] @ b @ [DQ]) = [[a @ [SPACE] @ b]]) \<and>
   parseCSVData ''"Jane, A","CEO\<newline>Global Co",img.png'' = [[''Jane, A'', ''CEO Global Co'', ''img.png'']] \<and>
   parseCSVLine ''"Jane, A","CEO\<newline>Global Co",img.png'' = [''Jane, A'', ''CEO Global Co'', ''img.png'']\<close>
proof -
  have 1: \<open>parseCSVData ''"Jane, A","CEO\<newline>Global Co",img.png'' = [[''Jane, A'', ''CEO Global Co'', ''img.png'']]\<close>
    by code_simp
  have 2: \<open>parseCSVLine ''"Jane, A","CEO\<newline>Global Co",img.png'' = [''Jane, A'', ''CEO Global Co'', ''img.png'']\<close>
    by code_simp
  show ?thesis using parseCSVData_one_quoted_field[of a b] 1 2 by blast
qed

theorem parseCSVData_quoted_multiline_field_witness:
  \<open>parseCSVData ''"Jane, A\<newline>Global Co"'' = [[''Jane, A Global Co'']]\<close>
proof -
  have h: "(\<forall>x \<in> set ''Jane, A'' \<union> set ''Global Co''. x \<noteq> DQ \<and> x \<noteq> CR \<and> x \<noteq> LF) \<and>
     ''Jane, A'' \<noteq> [] \<and> ''Global Co'' \<noteq> [] \<and> \<not> is_ws (hd ''Jane, A'') \<and> \<not> is_ws (last ''Global Co'')"
    by (simp add: is_ws_def)
  have "parseCSVData ([DQ] @ ''Jane, A'' @ [LF] @ ''Global Co'' @ [DQ]) = [[''Jane, A'' @ [SPACE] @ ''Global Co'']]"
    using parseCSVData_quoted_multiline_field[of "''Jane, A''" "''Global Co''"] h by blast
  then show ?thesis by simp
qed

end
